theory Spec2Isabelle
  imports Complex_Main
begin

section \<open>Data of the layout pipeline\<close>

text \<open>
  Points are OGDF's \<open>GenericPoint<T>\<close> with the fields \<open>m_x\<close> and \<open>m_y\<close>;
  \<open>DPoint\<close> holds doubles and \<open>IPoint\<close> holds ints. A C++ \<open>double\<close> is read as
  a real number (rounding and NaN are outside this development; a value above
  \<open>DBL_MAX\<close> stands for infinity), a C++ \<open>int\<close> as a mathematical integer, with the
  conversion from double and the addition written out as the 32-bit machine performs
  them.
\<close>

record 'a GenericPoint =
  m_x :: 'a
  m_y :: 'a

type_synonym DPoint = "real GenericPoint"
type_synonym IPoint = "int GenericPoint"
type_synonym node = nat
type_synonym edge = nat

datatype attribute = nodeGraphics | edgeGraphics | edgeDoubleWeight | threeD

record Graph =
  Graph_nodes :: "node list"
  Graph_edges :: "edge list"

record GraphAttributes =
  constGraph :: Graph
  attributes :: "attribute set"
  GA_x :: "node \<Rightarrow> real"
  GA_y :: "node \<Rightarrow> real"
  GA_z :: "node \<Rightarrow> real"
  GA_width :: "node \<Rightarrow> real"
  GA_height :: "node \<Rightarrow> real"
  GA_doubleWeight :: "edge \<Rightarrow> real"
  GA_bends :: "edge \<Rightarrow> DPoint list"

definition has :: "GraphAttributes \<Rightarrow> attribute \<Rightarrow> bool" where
  "has GA a = (a \<in> attributes GA)"

text \<open>
  \<open>Graph::CCsInfo\<close>: the connected components in index order, each with its node list
  and its edge list (\<open>ccs.nodes(j)\<close>, \<open>ccs.edges(j)\<close>).
\<close>

type_synonym component = "node list \<times> edge list"
type_synonym CCsInfo = "component list"

definition numberOfCCs :: "CCsInfo \<Rightarrow> nat" where
  "numberOfCCs ccs = length ccs"

definition numberOfNodes :: "component \<Rightarrow> nat" where
  "numberOfNodes cc = length (fst cc)"

record GraphCopy =
  GC_nodes :: "node list"
  GC_edges :: "edge list"
  original_node :: "node \<Rightarrow> node option"
  original_edge :: "edge \<Rightarrow> edge option"

text \<open>
  The collaborators whose code is outside the two source files are parameters:
  the convex hull module, and the graph services used by \<open>call\<close>.
\<close>

record ConvexHull =
  CH_call :: "DPoint list \<Rightarrow> DPoint list"
  calcNormal :: "DPoint \<Rightarrow> DPoint \<Rightarrow> DPoint"
  leftOfLine :: "DPoint \<Rightarrow> DPoint \<Rightarrow> DPoint \<Rightarrow> real"

record GraphServices =
  CCsInfo_of :: "Graph \<Rightarrow> CCsInfo"
  GC_insert :: "CCsInfo \<Rightarrow> nat \<Rightarrow> GraphCopy"
  new_GraphAttributes :: "GraphCopy \<Rightarrow> attribute set \<Rightarrow> GraphAttributes"

record ComponentSplitterLayout =
  m_secondaryLayout :: "(GraphAttributes \<Rightarrow> GraphAttributes) option"
  m_packer :: "IPoint list \<Rightarrow> IPoint list \<Rightarrow> real \<Rightarrow> IPoint list"
  m_targetRatio :: real
  m_border :: int

text \<open>The constructor: the packer is a \<open>TileToRowsCCPacker\<close>, given here as \<open>tileToRows\<close>.\<close>

definition ComponentSplitterLayout_new ::
  "(IPoint list \<Rightarrow> IPoint list \<Rightarrow> real \<Rightarrow> IPoint list) \<Rightarrow> ComponentSplitterLayout" where
  "ComponentSplitterLayout_new tileToRows =
     \<lparr>m_secondaryLayout = None, m_packer = tileToRows, m_targetRatio = 1, m_border = 30\<rparr>"

subsection \<open>Failures\<close>

text \<open>
  \<open>EmptyList\<close>: \<open>front()\<close> of an empty list; \<open>OutOfRange\<close>: \<open>std::vector::at\<close> or an
  array index outside the array; \<open>NullPointer\<close>: an attribute read at a null node or
  edge.
\<close>

datatype error = EmptyList | OutOfRange | NullPointer

definition bindE :: "error + 'a \<Rightarrow> ('a \<Rightarrow> error + 'b) \<Rightarrow> error + 'b" where
  "bindE m f = (case m of Inl e \<Rightarrow> Inl e | Inr v \<Rightarrow> f v)"

fun foldE :: "('a \<Rightarrow> 's \<Rightarrow> error + 's) \<Rightarrow> 'a list \<Rightarrow> 's \<Rightarrow> error + 's" where
  "foldE f [] s = Inr s"
| "foldE f (a # as) s = (case f a s of Inl e \<Rightarrow> Inl e | Inr s' \<Rightarrow> foldE f as s')"

fun mapE :: "('a \<Rightarrow> error + 'b) \<Rightarrow> 'a list \<Rightarrow> error + 'b list" where
  "mapE f [] = Inr []"
| "mapE f (a # as) =
     (case f a of Inl e \<Rightarrow> Inl e
      | Inr b \<Rightarrow> (case mapE f as of Inl e \<Rightarrow> Inl e | Inr bs \<Rightarrow> Inr (b # bs)))"

definition INT_MIN :: int where
  "INT_MIN = - (2 ^ 31)"

definition INT_MAX :: int where
  "INT_MAX = 2 ^ 31 - 1"

definition in_int_range :: "int \<Rightarrow> bool" where
  "in_int_range i = (INT_MIN \<le> i \<and> i \<le> INT_MAX)"

definition truncate_toward_zero :: "real \<Rightarrow> int" where
  "truncate_toward_zero d = (if 0 \<le> d then \<lfloor>d\<rfloor> else \<lceil>d\<rceil>)"

text \<open>
  \<open>static_cast<int>(d)\<close>: the program converts without a check and goes on with the
  result. A value whose truncation fits a 32-bit int is truncated toward zero; for any
  other value the conversion instruction of x86-64 delivers \<open>INT_MIN\<close>.
\<close>

definition static_cast_int :: "real \<Rightarrow> int" where
  "static_cast_int d =
     (if in_int_range (truncate_toward_zero d) then truncate_toward_zero d else INT_MIN)"

text \<open>\<open>a + b\<close> on 32-bit ints: unchecked, the sum wraps around modulo \<open>2 ^ 32\<close>.\<close>

definition add_int :: "int \<Rightarrow> int \<Rightarrow> int" where
  "add_int a b = (a + b + 2 ^ 31) mod 2 ^ 32 - 2 ^ 31"

definition DBL_MAX :: real where
  "DBL_MAX = 2 ^ 1024 - 2 ^ 971"

subsection \<open>Angles\<close>

text \<open>
  The C library's \<open>atan2\<close> is a collaborator of the program and a parameter of every
  function below that calls it. A double zero carries a sign that a real number does
  not have, and \<open>atan2\<close> reads it: for \<open>y\<close> zero and \<open>x\<close> negative it returns \<open>pi\<close> at
  \<open>+0.0\<close> and \<open>- pi\<close> at \<open>-0.0\<close>; for both arguments zero it returns \<open>0\<close> when \<open>x\<close>
  is \<open>+0.0\<close>, and \<open>pi\<close> or \<open>- pi\<close>, by the sign of \<open>y\<close>, when \<open>x\<close> is \<open>-0.0\<close>.
  \<open>atan2_results y x\<close> lists the values it can return on doubles of the real values
  \<open>y\<close> and \<open>x\<close>, and \<open>libm_atan2\<close> admits every function that returns one of them.
\<close>

type_synonym angle_function = "real \<Rightarrow> real \<Rightarrow> real"

definition atan2_results :: "real \<Rightarrow> real \<Rightarrow> real list" where
  "atan2_results y x =
     (if 0 < x then [arctan (y / x)]
      else if x < 0 then
        (if 0 < y then [arctan (y / x) + pi]
         else if y < 0 then [arctan (y / x) - pi]
         else [pi, - pi])
      else if 0 < y then [pi / 2]
      else if y < 0 then [- (pi / 2)]
      else [0, pi, - pi])"

definition libm_atan2 :: "angle_function \<Rightarrow> bool" where
  "libm_atan2 atan2 = (\<forall>y x. atan2 y x \<in> set (atan2_results y x))"

text \<open>The admissible function that takes every zero for \<open>+0.0\<close>.\<close>

definition atan2_pz :: angle_function where
  "atan2_pz y x =
     (if 0 < x then arctan (y / x)
      else if x < 0 then (if 0 \<le> y then arctan (y / x) + pi else arctan (y / x) - pi)
      else if 0 < y then pi / 2
      else if y < 0 then - (pi / 2)
      else 0)"

text \<open>Lines 160 to 180: defined in the file, and called by none of its functions.\<close>

definition atan2ex :: "angle_function \<Rightarrow> real \<Rightarrow> real \<Rightarrow> real" where
  "atan2ex atan2 y x =
     (let angle = atan2 y x;
          angle = (if x = 0 then (if 0 \<le> y then 0.5 * pi else 1.5 * pi) else angle);
          angle = (if y = 0 then (if 0 \<le> x then 0 else pi) else angle)
      in angle)"

section \<open>ComponentSplitterLayout::reassembleDrawings\<close>

subsection \<open>Collecting and centering the points of a component\<close>

text \<open>
  The points of component \<open>j\<close> in the order in which the program pushes them: the
  node positions, then (when the graph has \<open>edgeGraphics\<close>) the bend points edge by edge.
\<close>

definition collectPoints :: "GraphAttributes \<Rightarrow> component \<Rightarrow> DPoint list" where
  "collectPoints GA cc =
     map (\<lambda>v. \<lparr>m_x = GA_x GA v, m_y = GA_y GA v\<rparr>) (fst cc) @
     (if has GA edgeGraphics then concat (map (GA_bends GA) (snd cc)) else [])"

definition nbBends :: "GraphAttributes \<Rightarrow> component \<Rightarrow> nat" where
  "nbBends GA cc =
     (if has GA edgeGraphics then sum_list (map (\<lambda>e. length (GA_bends GA e)) (snd cc)) else 0)"

text \<open>
  \<open>avg_x\<close> and \<open>avg_y\<close>: the sums accumulated while collecting, divided by
  \<open>ccs.numberOfNodes(j) + nbBends\<close>. (With no node and no bend the program divides by
  zero, and then never uses the result.)
\<close>

definition average :: "GraphAttributes \<Rightarrow> component \<Rightarrow> real \<times> real" where
  "average GA cc =
     (let points = collectPoints GA cc;
          avg_x = sum_list (map m_x points);
          avg_y = sum_list (map m_y points)
      in (avg_x / real (numberOfNodes cc + nbBends GA cc),
          avg_y / real (numberOfNodes cc + nbBends GA cc)))"

definition shiftPoint :: "real \<Rightarrow> real \<Rightarrow> DPoint \<Rightarrow> DPoint" where
  "shiftPoint avg_x avg_y p = \<lparr>m_x = m_x p - avg_x, m_y = m_y p - avg_y\<rparr>"

text \<open>\<open>points.at(count).m_x -= avg_x; points.at(count).m_y -= avg_y\<close>; \<open>at\<close> throws out of range.\<close>

definition at_shift :: "real \<Rightarrow> real \<Rightarrow> DPoint list \<Rightarrow> nat \<Rightarrow> error + DPoint list" where
  "at_shift avg_x avg_y points count =
     (if count < length points
      then Inr (points[count := shiftPoint avg_x avg_y (points ! count)])
      else Inl OutOfRange)"

text \<open>The body of the loop over \<open>ccs.nodes(j)\<close> that adapts positions to the origin.\<close>

definition centerNode ::
  "real \<Rightarrow> real \<Rightarrow> node \<Rightarrow> GraphAttributes \<times> DPoint list \<times> nat \<Rightarrow>
   error + (GraphAttributes \<times> DPoint list \<times> nat)" where
  "centerNode avg_x avg_y v = (\<lambda>(GA, points, count).
     let GA = GA\<lparr>GA_x := (GA_x GA)(v := GA_x GA v - avg_x)\<rparr>;
         GA = GA\<lparr>GA_y := (GA_y GA)(v := GA_y GA v - avg_y)\<rparr>
     in bindE (at_shift avg_x avg_y points count) (\<lambda>points. Inr (GA, points, Suc count)))"

text \<open>The inner loop over the bends of one edge: it returns the shifted bends.\<close>

fun centerBends ::
  "real \<Rightarrow> real \<Rightarrow> DPoint list \<Rightarrow> DPoint list \<times> nat \<Rightarrow> error + (DPoint list \<times> DPoint list \<times> nat)" where
  "centerBends avg_x avg_y [] (points, count) = Inr ([], points, count)"
| "centerBends avg_x avg_y (bend # bends) (points, count) =
     bindE (at_shift avg_x avg_y points count) (\<lambda>points.
     bindE (centerBends avg_x avg_y bends (points, Suc count)) (\<lambda>(bends, points, count).
       Inr (shiftPoint avg_x avg_y bend # bends, points, count)))"

definition centerEdge ::
  "real \<Rightarrow> real \<Rightarrow> edge \<Rightarrow> GraphAttributes \<times> DPoint list \<times> nat \<Rightarrow>
   error + (GraphAttributes \<times> DPoint list \<times> nat)" where
  "centerEdge avg_x avg_y e = (\<lambda>(GA, points, count).
     bindE (centerBends avg_x avg_y (GA_bends GA e) (points, count)) (\<lambda>(bends, points, count).
       Inr (GA\<lparr>GA_bends := (GA_bends GA)(e := bends)\<rparr>, points, count)))"

text \<open>Lines 199 to 248: collect, average, and move the average to the origin.\<close>

definition centerComponent ::
  "GraphAttributes \<Rightarrow> component \<Rightarrow> error + (GraphAttributes \<times> DPoint list)" where
  "centerComponent GA cc =
     (let points = collectPoints GA cc;
          (avg_x, avg_y) = average GA cc
      in bindE (foldE (centerNode avg_x avg_y) (fst cc) (GA, points, 0)) (\<lambda>s.
         bindE (if has GA edgeGraphics then foldE (centerEdge avg_x avg_y) (snd cc) s else Inr s)
           (\<lambda>(GA, points, count). Inr (GA, points))))"

subsection \<open>The search over the hull edges\<close>

text \<open>
  Modelled from the spec: \<open>Math::updateMax\<close> (ogdf/basic/Math.h is not among the source
  files); the spec says the value is "clamped to a minimum of 1.0".
\<close>

definition updateMax :: "real \<Rightarrow> real \<Rightarrow> real" where
  "updateMax m newValue = (if m < newValue then newValue else m)"

record best =
  best_area :: real
  best_normal :: DPoint
  best_width :: real
  best_height :: real

definition maxDist :: "ConvexHull \<Rightarrow> DPoint list \<Rightarrow> DPoint \<Rightarrow> DPoint \<Rightarrow> real" where
  "maxDist CH hullP nrm k =
     fold (\<lambda>z dist. let d = leftOfLine CH nrm z k in if dist < d then d else dist) hullP 0"

definition leftRight :: "ConvexHull \<Rightarrow> DPoint list \<Rightarrow> DPoint \<Rightarrow> DPoint \<Rightarrow> real \<times> real" where
  "leftRight CH hullP nrm k =
     fold (\<lambda>z (left, right). let d = leftOfLine CH nrm z k in
             if left < d then (d, right) else if d < right then (left, d) else (left, right))
       hullP (0, 0)"

text \<open>
  The candidate of one hull edge: \<open>iter\<close> and its cyclic successor \<open>k\<close>. Height and
  width are raised to at least 1 before the area is taken.
\<close>

definition candidate :: "ConvexHull \<Rightarrow> DPoint list \<Rightarrow> DPoint \<times> DPoint \<Rightarrow> best" where
  "candidate CH hullP = (\<lambda>(iter, k).
     let dist = maxDist CH hullP (calcNormal CH k iter) k;
         norm = calcNormal CH \<lparr>m_x = 0, m_y = 0\<rparr> (calcNormal CH k iter);
         (left, right) = leftRight CH hullP norm k;
         width = left - right;
         dist = updateMax dist 1;
         width = updateMax width 1;
         area = dist * width
     in \<lparr>best_area = area, best_normal = calcNormal CH k iter,
         best_width = width, best_height = dist\<rparr>)"

text \<open>\<open>if (area <= best_area) { ... }\<close>: the candidate replaces the stored best.\<close>

definition updateBest :: "best \<Rightarrow> best \<Rightarrow> best" where
  "updateBest c b = (if best_area c \<le> best_area b then c else b)"

definition initialBest :: best where
  "initialBest =
     \<lparr>best_area = DBL_MAX, best_normal = \<lparr>m_x = 0, m_y = 0\<rparr>, best_width = 0, best_height = 0\<rparr>"

text \<open>
  The hull edges in iteration order: every hull point \<open>iter\<close> with \<open>hull.cyclicSucc(iter)\<close>,
  the next point, and the first one after the last.
\<close>

definition hullEdges :: "DPoint list \<Rightarrow> (DPoint \<times> DPoint) list" where
  "hullEdges hullP = zip hullP (rotate1 hullP)"

definition candidates :: "ConvexHull \<Rightarrow> DPoint list \<Rightarrow> best list" where
  "candidates CH hullP = map (candidate CH hullP) (hullEdges hullP)"

definition calipers :: "ConvexHull \<Rightarrow> DPoint list \<Rightarrow> best" where
  "calipers CH hullP = fold updateBest (candidates CH hullP) initialBest"

text \<open>\<open>if (hull.size() <= 1)\<close>: the unit box with the normal (1, 1).\<close>

definition degenerate :: "DPoint list \<Rightarrow> best \<Rightarrow> best" where
  "degenerate hullP b =
     (if length hullP \<le> 1
      then b\<lparr>best_height := 1, best_width := 1, best_normal := \<lparr>m_x = 1, m_y = 1\<rparr>\<rparr>
      else b)"

subsection \<open>Orientation, offset and box\<close>

definition rotationAngle :: "angle_function \<Rightarrow> DPoint \<Rightarrow> real" where
  "rotationAngle atan2 n = - atan2 (m_y n) (m_x n) + 1.5 * pi"

text \<open>Lines 303 to 309; the result is (angle, best_width, best_height).\<close>

definition orient :: "angle_function \<Rightarrow> best \<Rightarrow> real \<times> real \<times> real" where
  "orient atan2 b =
     (let angle = rotationAngle atan2 (best_normal b) in
      if best_width b < best_height b
      then (angle + 0.5 * pi, best_height b, best_width b)
      else (angle, best_width b, best_height b))"

definition rotateHullPoint :: "angle_function \<Rightarrow> real \<Rightarrow> DPoint \<Rightarrow> DPoint" where
  "rotateHullPoint atan2 angle tempP =
     (let ang = atan2 (m_y tempP) (m_x tempP);
          len = sqrt (m_x tempP * m_x tempP + m_y tempP * m_y tempP);
          ang = ang + angle
      in \<lparr>m_x = cos ang * len, m_y = sin ang * len\<rparr>)"

text \<open>Lines 311 to 331: (left, top, bottom) of the rotated hull; \<open>hull.front()\<close> needs a point.\<close>

definition hullExtent ::
  "angle_function \<Rightarrow> real \<Rightarrow> DPoint list \<Rightarrow> error + (real \<times> real \<times> real)" where
  "hullExtent atan2 angle hullP =
     (case hullP of
        [] \<Rightarrow> Inl EmptyList
      | front # _ \<Rightarrow>
          Inr (fold (\<lambda>tempP (left, top, bottom).
                 let tempP = rotateHullPoint atan2 angle tempP;
                     left = (if m_x tempP < left then m_x tempP else left);
                     top = (if m_y tempP < top then m_y tempP else top);
                     bottom = (if bottom < m_y tempP then m_y tempP else bottom)
                 in (left, top, bottom))
               hullP (m_x front, m_y front, m_y front)))"

definition makeOldOffset :: "int \<Rightarrow> real \<Rightarrow> real \<times> real \<times> real \<Rightarrow> DPoint" where
  "makeOldOffset border height = (\<lambda>(left, top, bottom).
     \<lparr>m_x = left + 0.5 * real_of_int border,
      m_y = - 1 * height + 1 * bottom + 0 * top + 0.5 * real_of_int border\<rparr>)"

text \<open>Lines 337 to 339: the box of a component from its width and height.\<close>

definition makeBox :: "int \<Rightarrow> real \<Rightarrow> real \<Rightarrow> IPoint" where
  "makeBox border width height =
     (let w = static_cast_int width;
          h = static_cast_int height
      in \<lparr>m_x = add_int w border, m_y = add_int h border\<rparr>)"

text \<open>What the first loop records for a component once its points are centered.\<close>

definition measureHull ::
  "angle_function \<Rightarrow> ConvexHull \<Rightarrow> int \<Rightarrow> DPoint list \<Rightarrow> error + (real \<times> DPoint \<times> IPoint)" where
  "measureHull atan2 CH border hullP =
     (let (angle, width, height) = orient atan2 (degenerate hullP (calipers CH hullP)) in
      bindE (hullExtent atan2 angle hullP) (\<lambda>ext.
        Inr (angle, makeOldOffset border height ext, makeBox border width height)))"

type_synonym measures = "GraphAttributes \<times> IPoint list \<times> DPoint list \<times> real list"

text \<open>The body of the first loop over the components (lines 196 to 340).\<close>

definition processComponent ::
  "angle_function \<Rightarrow> ConvexHull \<Rightarrow> int \<Rightarrow> component \<Rightarrow> measures \<Rightarrow> error + measures" where
  "processComponent atan2 CH border cc = (\<lambda>(GA, box, oldOffset, rotation).
     bindE (centerComponent GA cc) (\<lambda>(GA, points).
     bindE (measureHull atan2 CH border (CH_call CH points)) (\<lambda>(angle, off, bx).
       Inr (GA, box @ [bx], oldOffset @ [off], rotation @ [angle]))))"

definition measureComponents ::
  "angle_function \<Rightarrow> ConvexHull \<Rightarrow> int \<Rightarrow> CCsInfo \<Rightarrow> GraphAttributes \<Rightarrow> error + measures" where
  "measureComponents atan2 CH border ccs GA =
     foldE (processComponent atan2 CH border) ccs (GA, [], [], [])"

subsection \<open>The final transform\<close>

definition rotatePoint ::
  "angle_function \<Rightarrow> real list \<Rightarrow> IPoint list \<Rightarrow> DPoint list \<Rightarrow> DPoint \<Rightarrow> nat \<Rightarrow>
   error + DPoint" where
  "rotatePoint atan2 rotation offset oldOffset p index =
     (if index < length rotation \<and> index < length offset \<and> index < length oldOffset then
        (let x = m_x p; y = m_y p;
             angle = rotation ! index;
             ang = atan2 y x;
             len = sqrt (x * x + y * y);
             ang = ang + angle;
             x = cos ang * len;
             y = sin ang * len;
             x = x + real_of_int (m_x (offset ! index));
             y = y + real_of_int (m_y (offset ! index));
             x = x - m_x (oldOffset ! index);
             y = y - m_y (oldOffset ! index)
         in Inr \<lparr>m_x = x, m_y = y\<rparr>)
      else Inl OutOfRange)"

definition transformNode ::
  "(DPoint \<Rightarrow> nat \<Rightarrow> error + DPoint) \<Rightarrow> nat \<Rightarrow> node \<Rightarrow> GraphAttributes \<Rightarrow> error + GraphAttributes" where
  "transformNode rp index v GA =
     bindE (rp \<lparr>m_x = GA_x GA v, m_y = GA_y GA v\<rparr> index) (\<lambda>p.
       Inr (GA\<lparr>GA_x := (GA_x GA)(v := m_x p), GA_y := (GA_y GA)(v := m_y p)\<rparr>))"

definition transformEdge ::
  "(DPoint \<Rightarrow> nat \<Rightarrow> error + DPoint) \<Rightarrow> nat \<Rightarrow> edge \<Rightarrow> GraphAttributes \<Rightarrow> error + GraphAttributes" where
  "transformEdge rp index e GA =
     bindE (mapE (\<lambda>bend. rp bend index) (GA_bends GA e)) (\<lambda>bends.
       Inr (GA\<lparr>GA_bends := (GA_bends GA)(e := bends)\<rparr>))"

text \<open>The body of the last loop over the components (lines 366 to 383).\<close>

definition transformComponent ::
  "(DPoint \<Rightarrow> nat \<Rightarrow> error + DPoint) \<Rightarrow> component \<Rightarrow> GraphAttributes \<times> nat \<Rightarrow>
   error + (GraphAttributes \<times> nat)" where
  "transformComponent rp cc = (\<lambda>(GA, index).
     bindE (foldE (transformNode rp index) (fst cc) GA) (\<lambda>GA.
     bindE (if has GA edgeGraphics then foldE (transformEdge rp index) (snd cc) GA else Inr GA)
       (\<lambda>GA. Inr (GA, Suc index))))"

definition applyTransform ::
  "(DPoint \<Rightarrow> nat \<Rightarrow> error + DPoint) \<Rightarrow> CCsInfo \<Rightarrow> GraphAttributes \<Rightarrow> error + GraphAttributes" where
  "applyTransform rp ccs GA = bindE (foldE (transformComponent rp) ccs (GA, 0)) (\<lambda>(GA, index). Inr GA)"

subsection \<open>The whole of reassembleDrawings, and call\<close>

datatype event = SecondaryLayoutCalled nat | ReassembleDrawingsCalled | PackerCalled

text \<open>
  The packer receives the boxes, an offset array of \<open>box.size()\<close> default points and
  the target ratio, and leaves the placements in the offset array. A run that
  completes gives the graph attributes it leaves, together with the calls it made to
  the collaborators, in order.
\<close>

definition reassembleDrawings ::
  "angle_function \<Rightarrow> ComponentSplitterLayout \<Rightarrow> ConvexHull \<Rightarrow> GraphAttributes \<Rightarrow> CCsInfo \<Rightarrow>
   error + (GraphAttributes \<times> event list)" where
  "reassembleDrawings atan2 L CH GA ccs =
     bindE (measureComponents atan2 CH (m_border L) ccs GA) (\<lambda>(GA, box, oldOffset, rotation).
       let offset = replicate (length box) \<lparr>m_x = 0, m_y = 0\<rparr>;
           offset = m_packer L box offset (m_targetRatio L)
       in bindE (applyTransform (rotatePoint atan2 rotation offset oldOffset) ccs GA) (\<lambda>GA.
            Inr (GA, [PackerCalled])))"

text \<open>
  The body of the loop of \<open>call\<close> over the components (lines 84 to 131). Copying into
  the component's attributes reads \<open>GC.original\<close> unchecked; copying back skips a copy
  without original.
\<close>

definition copyNodeIn ::
  "GraphCopy \<Rightarrow> GraphAttributes \<Rightarrow> node \<Rightarrow> GraphAttributes \<Rightarrow> error + GraphAttributes" where
  "copyNodeIn GC GA v cGA =
     (case original_node GC v of
        None \<Rightarrow> Inl NullPointer
      | Some w \<Rightarrow>
          Inr (cGA\<lparr>GA_width := (GA_width cGA)(v := GA_width GA w),
                    GA_height := (GA_height cGA)(v := GA_height GA w),
                    GA_x := (GA_x cGA)(v := GA_x GA w),
                    GA_y := (GA_y cGA)(v := GA_y GA w)\<rparr>))"

definition copyEdgeIn ::
  "GraphCopy \<Rightarrow> GraphAttributes \<Rightarrow> edge \<Rightarrow> GraphAttributes \<Rightarrow> error + GraphAttributes" where
  "copyEdgeIn GC GA e cGA =
     bindE (if has GA edgeDoubleWeight
            then (case original_edge GC e of
                    None \<Rightarrow> Inl NullPointer
                  | Some f \<Rightarrow>
                      Inr (cGA\<lparr>GA_doubleWeight := (GA_doubleWeight cGA)(e := GA_doubleWeight GA f)\<rparr>))
            else Inr cGA) (\<lambda>cGA.
       if has GA edgeGraphics
       then (case original_edge GC e of
               None \<Rightarrow> Inl NullPointer
             | Some f \<Rightarrow> Inr (cGA\<lparr>GA_bends := (GA_bends cGA)(e := GA_bends GA f)\<rparr>))
       else Inr cGA)"

definition copyNodeBack :: "GraphCopy \<Rightarrow> GraphAttributes \<Rightarrow> node \<Rightarrow> GraphAttributes \<Rightarrow> GraphAttributes" where
  "copyNodeBack GC cGA v GA =
     (case original_node GC v of
        None \<Rightarrow> GA
      | Some w \<Rightarrow>
          let GA = GA\<lparr>GA_x := (GA_x GA)(w := GA_x cGA v)\<rparr>;
              GA = GA\<lparr>GA_y := (GA_y GA)(w := GA_y cGA v)\<rparr>
          in if has GA threeD then GA\<lparr>GA_z := (GA_z GA)(w := GA_z cGA v)\<rparr> else GA)"

definition copyEdgeBack :: "GraphCopy \<Rightarrow> GraphAttributes \<Rightarrow> edge \<Rightarrow> GraphAttributes \<Rightarrow> GraphAttributes" where
  "copyEdgeBack GC cGA e GA =
     (case original_edge GC e of
        None \<Rightarrow> GA
      | Some f \<Rightarrow> GA\<lparr>GA_bends := (GA_bends GA)(f := GA_bends cGA e)\<rparr>)"

definition layoutComponent ::
  "GraphServices \<Rightarrow> (GraphAttributes \<Rightarrow> GraphAttributes) \<Rightarrow> CCsInfo \<Rightarrow> nat \<Rightarrow>
   GraphAttributes \<times> event list \<Rightarrow> error + (GraphAttributes \<times> event list)" where
  "layoutComponent S secondaryLayout ccs i = (\<lambda>(GA, events).
     let GC = GC_insert S ccs i;
         cGA = new_GraphAttributes S GC (attributes GA)
     in bindE (foldE (copyNodeIn GC GA) (GC_nodes GC) cGA) (\<lambda>cGA.
        bindE (foldE (copyEdgeIn GC GA) (GC_edges GC) cGA) (\<lambda>cGA.
          let cGA = secondaryLayout cGA;
              GA = fold (copyNodeBack GC cGA) (GC_nodes GC) GA;
              GA = (if has GA edgeGraphics then fold (copyEdgeBack GC cGA) (GC_edges GC) GA else GA)
          in Inr (GA, events @ [SecondaryLayoutCalled i]))))"

definition call ::
  "angle_function \<Rightarrow> ComponentSplitterLayout \<Rightarrow> ConvexHull \<Rightarrow> GraphServices \<Rightarrow> GraphAttributes \<Rightarrow>
   error + (GraphAttributes \<times> event list)" where
  "call atan2 L CH S GA =
     (case m_secondaryLayout L of
        None \<Rightarrow> Inr (GA, [])
      | Some secondaryLayout \<Rightarrow>
          let ccs = CCsInfo_of S (constGraph GA);
              numberOfComponents = numberOfCCs ccs
          in if numberOfComponents = 0 then Inr (GA, [])
             else
               bindE (foldE (layoutComponent S secondaryLayout ccs) [0..<numberOfComponents] (GA, []))
                 (\<lambda>(GA, events).
               bindE (reassembleDrawings atan2 L CH GA ccs) (\<lambda>(GA, packing).
                 Inr (GA, events @ [ReassembleDrawingsCalled] @ packing))))"

section \<open>LongestPathCompaction\<close>

text \<open>
  The class as the header declares it: the two options with their accessors, and the
  list of pseudo-sources and the pseudo-component of a node as members of the object.
  The constructor's defaults are \<open>tighten = true\<close> and \<open>maxImprovementSteps = 0\<close>.
\<close>

record LongestPathCompaction =
  m_tighten :: bool
  m_maxImprovementSteps :: int
  m_pseudoSources :: "node list"
  m_component :: "node \<Rightarrow> int"

definition set_tighten :: "bool \<Rightarrow> LongestPathCompaction \<Rightarrow> LongestPathCompaction" where
  "set_tighten select C = C\<lparr>m_tighten := select\<rparr>"

definition tighten :: "LongestPathCompaction \<Rightarrow> bool" where
  "tighten C = m_tighten C"

definition set_maxImprovementSteps :: "int \<Rightarrow> LongestPathCompaction \<Rightarrow> LongestPathCompaction" where
  "set_maxImprovementSteps maxSteps C = C\<lparr>m_maxImprovementSteps := maxSteps\<rparr>"

definition maxImprovementSteps :: "LongestPathCompaction \<Rightarrow> int" where
  "maxImprovementSteps C = m_maxImprovementSteps C"

subsection \<open>The constructive heuristic\<close>

text \<open>
  Modelled from the spec: the constraint graph (\<open>CompactionConstraintGraph\<close> is not
  among the source files). The spec describes it as a directed graph whose nodes are the
  drawing elements along one axis and whose edges \<open>(u, v, len)\<close> carry a minimum length;
  a coordinate assignment maps every node to an integer position.
\<close>

type_synonym constraint = "node \<times> node \<times> int"

record ConstraintGraph =
  cg_nodes :: "node list"
  cg_edges :: "constraint list"

datatype compaction_error = CycleDetected

definition incoming :: "constraint list \<Rightarrow> node \<Rightarrow> constraint list" where
  "incoming es v = filter (\<lambda>(u, w, len). w = v) es"

text \<open>
  Modelled from the spec: the coordinate of a node, "max over incoming edges of
  (predecessor coordinate + edge length), or 0 if none", from the coordinates \<open>pos\<close>
  of its predecessors.
\<close>

definition coordinate :: "constraint list \<Rightarrow> (node \<Rightarrow> int) \<Rightarrow> node \<Rightarrow> int" where
  "coordinate es pos v =
     (case map (\<lambda>(u, w, len). pos u + len) (incoming es v) of
        [] \<Rightarrow> 0
      | c # cs \<Rightarrow> fold max cs c)"

text \<open>
  Modelled from the spec: "process nodes in topological order". A node is ready once
  all its predecessors have been processed; the order takes, again and again, the
  first remaining node that is ready. When nodes remain and none is ready, the graph
  has a cycle, which the spec makes a fatal error.
\<close>

definition ready :: "constraint list \<Rightarrow> node list \<Rightarrow> node \<Rightarrow> bool" where
  "ready es processed v = list_all (\<lambda>(u, w, len). u \<in> set processed) (incoming es v)"

function topologicalOrder :: "constraint list \<Rightarrow> node list \<Rightarrow> node list \<Rightarrow> node list option" where
  "topologicalOrder es processed remaining =
     (if remaining = [] then Some processed
      else (case find (ready es processed) remaining of
              None \<Rightarrow> None
            | Some v \<Rightarrow> topologicalOrder es (processed @ [v]) (removeAll v remaining)))"
  by pat_completeness auto
termination
  by (relation "measure (\<lambda>(es, processed, remaining). length remaining)")
    (auto simp: find_Some_iff intro!: length_removeAll_less)

declare topologicalOrder.simps [simp del]

definition relax :: "constraint list \<Rightarrow> node \<Rightarrow> (node \<Rightarrow> int) \<Rightarrow> (node \<Rightarrow> int)" where
  "relax es v pos = pos(v := coordinate es pos v)"

text \<open>
  Modelled from the spec: \<open>LongestPathCompaction::constructiveHeuristics\<close>, whose body
  is not among the source files (the header only declares it), on one constraint graph:
  "topological relaxation over the DAG: process nodes in topological order; a node's
  coordinate = max over incoming edges of (predecessor coordinate + edge length), or 0
  if none". The option \<open>tighten\<close> belongs, in the spec, to the improvement pass and has
  no part here.
\<close>

definition constructiveHeuristics :: "ConstraintGraph \<Rightarrow> compaction_error + (node \<Rightarrow> int)" where
  "constructiveHeuristics D =
     (case topologicalOrder (cg_edges D) [] (cg_nodes D) of
        None \<Rightarrow> Inl CycleDetected
      | Some order \<Rightarrow> Inr (fold (relax (cg_edges D)) order (\<lambda>v. 0)))"

text \<open>The scenario of the spec: a path of four nodes with the edge lengths 5, 3 and 2.\<close>

definition exPath :: ConstraintGraph where
  "exPath = \<lparr>cg_nodes = [0, 1, 2, 3], cg_edges = [(0, 1, 5), (1, 2, 3), (2, 3, 2)]\<rparr>"


section \<open>Auxiliary notions for the proofs\<close>

text \<open>
  The effect of the centering loops in closed form: \<open>shiftRange\<close> is a point list
  with the entries from \<open>count\<close> up to \<open>count + n\<close> moved, \<open>shiftNode\<close> and
  \<open>shiftEdge\<close> are the updates of the graph attributes for one node and one edge.
\<close>

definition shiftRange :: "real \<Rightarrow> real \<Rightarrow> DPoint list \<Rightarrow> nat \<Rightarrow> nat \<Rightarrow> DPoint list" where
  "shiftRange avg_x avg_y points count n =
     map (\<lambda>i. if count \<le> i \<and> i < count + n then shiftPoint avg_x avg_y (points ! i) else points ! i)
       [0..<length points]"

definition shiftNode :: "real \<Rightarrow> real \<Rightarrow> node \<Rightarrow> GraphAttributes \<Rightarrow> GraphAttributes" where
  "shiftNode ax ay v GA =
     GA\<lparr>GA_x := (GA_x GA)(v := GA_x GA v - ax), GA_y := (GA_y GA)(v := GA_y GA v - ay)\<rparr>"

definition shiftEdge :: "real \<Rightarrow> real \<Rightarrow> edge \<Rightarrow> GraphAttributes \<Rightarrow> GraphAttributes" where
  "shiftEdge ax ay e GA = GA\<lparr>GA_bends := (GA_bends GA)(e := map (shiftPoint ax ay) (GA_bends GA e))\<rparr>"

definition bendCount :: "GraphAttributes \<Rightarrow> edge list \<Rightarrow> nat" where
  "bendCount GA es = sum_list (map (\<lambda>e. length (GA_bends GA e)) es)"

definition centered :: "real \<Rightarrow> real \<Rightarrow> component \<Rightarrow> GraphAttributes \<Rightarrow> GraphAttributes" where
  "centered ax ay cc GA =
     (if has GA edgeGraphics
      then fold (shiftEdge ax ay) (snd cc) (fold (shiftNode ax ay) (fst cc) GA)
      else fold (shiftNode ax ay) (fst cc) GA)"

text \<open>
  The position of a node as a point, and the final transform as a map of the plane:
  the rotation by \<open>angle\<close>, then the translation by the packer's offset minus the
  component's own offset.
\<close>

definition point_of :: "GraphAttributes \<Rightarrow> node \<Rightarrow> DPoint" where
  "point_of GA v = \<lparr>m_x = GA_x GA v, m_y = GA_y GA v\<rparr>"

definition placed :: "real \<Rightarrow> IPoint \<Rightarrow> DPoint \<Rightarrow> DPoint \<Rightarrow> DPoint" where
  "placed angle off old p =
     \<lparr>m_x = m_x p * cos angle - m_y p * sin angle + real_of_int (m_x off) - m_x old,
      m_y = m_x p * sin angle + m_y p * cos angle + real_of_int (m_y off) - m_y old\<rparr>"

text \<open>
  For the constraint graph: the predecessors of a node, the edge relation, and what it
  means for a list of nodes to be in topological order (every predecessor of an entry
  stands before it).
\<close>

definition preds :: "constraint list \<Rightarrow> node \<Rightarrow> node set" where
  "preds es v = {u. \<exists>len. (u, v, len) \<in> set es}"

definition topo_sorted :: "constraint list \<Rightarrow> node list \<Rightarrow> bool" where
  "topo_sorted es order = (\<forall>i<length order. preds es (order ! i) \<subseteq> set (take i order))"

definition edge_rel :: "constraint list \<Rightarrow> (node \<times> node) set" where
  "edge_rel es = {(u, v). \<exists>len. (u, v, len) \<in> set es}"

text \<open>
  The hulls that the first loop of \<open>reassembleDrawings\<close> computes, component by
  component: the hull of the centered points of each component, on the attributes
  as the components before it have left them.
\<close>

fun componentHulls :: "ConvexHull \<Rightarrow> CCsInfo \<Rightarrow> GraphAttributes \<Rightarrow> DPoint list list" where
  "componentHulls CH [] GA = []"
| "componentHulls CH (cc # ccs) GA =
     CH_call CH (map (shiftPoint (fst (average GA cc)) (snd (average GA cc))) (collectPoints GA cc))
     # componentHulls CH ccs (centered (fst (average GA cc)) (snd (average GA cc)) cc GA)"

text \<open>
  The boxes that the first loop records, as the packer receives them; and the
  condition under which the conversions to \<open>int\<close> and the additions of the border of
  lines 337 to 339 stay within the 32-bit range for a width and a height.
\<close>

definition recordedBoxes ::
  "angle_function \<Rightarrow> ConvexHull \<Rightarrow> int \<Rightarrow> CCsInfo \<Rightarrow> GraphAttributes \<Rightarrow> IPoint list option" where
  "recordedBoxes atn CH border ccs GA =
     (case measureComponents atn CH border ccs GA of
        Inl e \<Rightarrow> None
      | Inr (GA', box, oldOffset, rotation) \<Rightarrow> Some box)"

definition boxInRange :: "int \<Rightarrow> real \<Rightarrow> real \<Rightarrow> bool" where
  "boxInRange border w h =
     (in_int_range (truncate_toward_zero w) \<and> in_int_range (truncate_toward_zero h) \<and>
      in_int_range (truncate_toward_zero w + border) \<and>
      in_int_range (truncate_toward_zero h + border))"

section \<open>A small instance\<close>

text \<open>
  Concrete collaborators and a concrete graph, on which the theorems below are
  instantiated: a hull module that returns the points as they are and measures with
  unnormalised normals, a packer that places the boxes in a row, and a graph with the
  components \<open>{0, 1, 2}\<close> (one edge with a bend) and \<open>{3}\<close>.
\<close>

definition exCH :: ConvexHull where
  "exCH = \<lparr>CH_call = (\<lambda>points. points),
           calcNormal = (\<lambda>p q. \<lparr>m_x = m_y q - m_y p, m_y = m_x p - m_x q\<rparr>),
           leftOfLine = (\<lambda>n z k. (m_x z - m_x k) * m_x n + (m_y z - m_y k) * m_y n)\<rparr>"

fun rowOffsets :: "int \<Rightarrow> IPoint list \<Rightarrow> IPoint list" where
  "rowOffsets x [] = []"
| "rowOffsets x (b # bs) = \<lparr>m_x = x, m_y = 0\<rparr> # rowOffsets (x + m_x b) bs"

definition exPacker :: "IPoint list \<Rightarrow> IPoint list \<Rightarrow> real \<Rightarrow> IPoint list" where
  "exPacker box offset ratio = rowOffsets 0 box"

definition exGA :: GraphAttributes where
  "exGA = \<lparr>constGraph = \<lparr>Graph_nodes = [0, 1, 2, 3], Graph_edges = [0]\<rparr>,
           attributes = {nodeGraphics, edgeGraphics},
           GA_x = (\<lambda>v. if v = 0 then 0 else if v = 3 then 10 else 2),
           GA_y = (\<lambda>v. if v = 2 then 1 else if v = 3 then 10 else 0),
           GA_z = (\<lambda>v. 0),
           GA_width = (\<lambda>v. 20),
           GA_height = (\<lambda>v. 20),
           GA_doubleWeight = (\<lambda>e. 1),
           GA_bends = (\<lambda>e. if e = 0 then [\<lparr>m_x = 0, m_y = 1\<rparr>] else [])\<rparr>"

definition exCC1 :: component where
  "exCC1 = ([0, 1, 2], [0])"

definition exCC2 :: component where
  "exCC2 = ([3], [])"

definition exCCs :: CCsInfo where
  "exCCs = [exCC1, exCC2]"

text \<open>The points of the first component after centering.\<close>

definition exCentered :: "DPoint list" where
  "exCentered = [\<lparr>m_x = - 1, m_y = - (1 / 2)\<rparr>, \<lparr>m_x = 1, m_y = - (1 / 2)\<rparr>,
                 \<lparr>m_x = 1, m_y = 1 / 2\<rparr>, \<lparr>m_x = - 1, m_y = 1 / 2\<rparr>]"

definition exS :: GraphServices where
  "exS = \<lparr>CCsInfo_of = (\<lambda>G. if Graph_nodes G = [] then [] else exCCs),
          GC_insert = (\<lambda>ccs i. \<lparr>GC_nodes = fst (ccs ! i), GC_edges = snd (ccs ! i),
                                  original_node = (\<lambda>v. Some v), original_edge = (\<lambda>e. Some e)\<rparr>),
          new_GraphAttributes = (\<lambda>GC attrs.
             \<lparr>constGraph = \<lparr>Graph_nodes = GC_nodes GC, Graph_edges = GC_edges GC\<rparr>,
              attributes = attrs, GA_x = (\<lambda>v. 0), GA_y = (\<lambda>v. 0), GA_z = (\<lambda>v. 0),
              GA_width = (\<lambda>v. 0), GA_height = (\<lambda>v. 0), GA_doubleWeight = (\<lambda>e. 0),
              GA_bends = (\<lambda>e. [])\<rparr>)\<rparr>"

text \<open>
  Two further graphs of one component each: two nodes \<open>10 ^ 10\<close> apart on a horizontal
  line, and the four corners of a square of side \<open>2 ^ 266\<close> around the origin.
\<close>

definition exWideGA :: GraphAttributes where
  "exWideGA = \<lparr>constGraph = \<lparr>Graph_nodes = [0, 1], Graph_edges = []\<rparr>,
           attributes = {nodeGraphics},
           GA_x = (\<lambda>v. if v = 0 then 0 else 10 ^ 10),
           GA_y = (\<lambda>v. 0),
           GA_z = (\<lambda>v. 0),
           GA_width = (\<lambda>v. 20),
           GA_height = (\<lambda>v. 20),
           GA_doubleWeight = (\<lambda>e. 1),
           GA_bends = (\<lambda>e. [])\<rparr>"

definition exWideCC :: component where
  "exWideCC = ([0, 1], [])"

definition exWide :: "DPoint list" where
  "exWide = [\<lparr>m_x = - (5 * 10 ^ 9), m_y = 0\<rparr>, \<lparr>m_x = 5 * 10 ^ 9, m_y = 0\<rparr>]"

definition exBigGA :: GraphAttributes where
  "exBigGA = \<lparr>constGraph = \<lparr>Graph_nodes = [0, 1, 2, 3], Graph_edges = []\<rparr>,
           attributes = {nodeGraphics},
           GA_x = (\<lambda>v. if v = 0 \<or> v = 3 then - (2 ^ 265) else 2 ^ 265),
           GA_y = (\<lambda>v. if v = 0 \<or> v = 1 then - (2 ^ 265) else 2 ^ 265),
           GA_z = (\<lambda>v. 0),
           GA_width = (\<lambda>v. 20),
           GA_height = (\<lambda>v. 20),
           GA_doubleWeight = (\<lambda>e. 1),
           GA_bends = (\<lambda>e. [])\<rparr>"

definition exBigCC :: component where
  "exBigCC = ([0, 1, 2, 3], [])"

definition exBig :: "DPoint list" where
  "exBig = [\<lparr>m_x = - (2 ^ 265), m_y = - (2 ^ 265)\<rparr>, \<lparr>m_x = 2 ^ 265, m_y = - (2 ^ 265)\<rparr>,
            \<lparr>m_x = 2 ^ 265, m_y = 2 ^ 265\<rparr>, \<lparr>m_x = - (2 ^ 265), m_y = 2 ^ 265\<rparr>]"

section \<open>Properties of the model\<close>

subsection \<open>Failures, truncation and the box\<close>

lemma bindE_Inr [simp]: "bindE (Inr v) f = f v"
  by (simp add: bindE_def)

lemma bindE_Inl [simp]: "bindE (Inl e) f = Inl e"
  by (simp add: bindE_def)

lemma bindE_eq_Inr: "bindE m f = Inr r \<longleftrightarrow> (\<exists>v. m = Inr v \<and> f v = Inr r)"
  by (cases m) simp_all

lemma truncate_ge_1: "1 \<le> d \<Longrightarrow> 1 \<le> truncate_toward_zero d"
  unfolding truncate_toward_zero_def by (simp)

lemma static_cast_int_in_range:
  "in_int_range (truncate_toward_zero d) \<Longrightarrow> static_cast_int d = truncate_toward_zero d"
  by (simp add: static_cast_int_def)

lemma add_int_in_range:
  assumes "in_int_range (a + b)"
  shows "add_int a b = a + b"
proof -
  from assms have "0 \<le> a + b + 2 ^ 31" and "a + b + 2 ^ 31 < 2 ^ 32"
    by (simp_all add: in_int_range_def INT_MIN_def INT_MAX_def)
  then have "(a + b + 2 ^ 31) mod 2 ^ 32 = a + b + 2 ^ 31"
    by (rule mod_pos_pos_trivial)
  then show ?thesis by (simp add: add_int_def)
qed

lemma boxInRange_commute: "boxInRange border w h \<Longrightarrow> boxInRange border h w"
  by (simp add: boxInRange_def)

lemma makeBox_in_range:
  assumes "boxInRange border w h"
  shows "makeBox border w h =
     \<lparr>m_x = truncate_toward_zero w + border, m_y = truncate_toward_zero h + border\<rparr>"
  using assms
  by (simp add: makeBox_def boxInRange_def static_cast_int_in_range add_int_in_range)

lemma orient_width_ge_height: "orient atn b = (angle, w, h) \<Longrightarrow> h \<le> w"
  by (auto simp: orient_def Let_def split: if_splits)

lemma measureHull_Inr:
  "measureHull atn CH border hullP = Inr (angle, off, bx) \<longleftrightarrow>
     (\<exists>w h ext. orient atn (degenerate hullP (calipers CH hullP)) = (angle, w, h) \<and>
        hullExtent atn angle hullP = Inr ext \<and> bx = makeBox border w h \<and>
        off = makeOldOffset border h ext)"
  by (auto simp: measureHull_def bindE_eq_Inr split: prod.splits)

lemma truncate_mono: "a \<le> b \<Longrightarrow> truncate_toward_zero a \<le> truncate_toward_zero b"
proof -
  assume ab: "a \<le> b"
  show ?thesis
  proof (cases "0 \<le> a")
    case True
    with ab show ?thesis by (simp add: truncate_toward_zero_def floor_mono)
  next
    case False
    then have a: "a < 0" by simp
    show ?thesis
    proof (cases "0 \<le> b")
      case True
      have "\<lceil>a\<rceil> \<le> 0" using a by (simp add: ceiling_le_zero)
      moreover have "0 \<le> \<lfloor>b\<rfloor>" using True by simp
      ultimately have "\<lceil>a\<rceil> \<le> \<lfloor>b\<rfloor>" by linarith
      then show ?thesis using a True by (simp add: truncate_toward_zero_def)
    next
      case False
      with a ab show ?thesis by (simp add: truncate_toward_zero_def ceiling_mono)
    qed
  qed
qed

lemma degenerate_small:
  "length hullP \<le> 1 \<Longrightarrow>
   degenerate hullP b = b\<lparr>best_height := 1, best_width := 1, best_normal := \<lparr>m_x = 1, m_y = 1\<rparr>\<rparr>"
  by (simp add: degenerate_def)

lemma orient_unit:
  "best_width b = 1 \<Longrightarrow> best_height b = 1 \<Longrightarrow> orient atn b = (rotationAngle atn (best_normal b), 1, 1)"
  by (simp add: orient_def)

lemma hullExtent_defined:
  assumes "hullP \<noteq> []"
  shows "\<exists>ext. hullExtent atn angle hullP = Inr ext"
proof (cases hullP)
  case Nil
  with assms show ?thesis by simp
next
  case (Cons front rest)
  show ?thesis
    unfolding hullExtent_def Cons list.case by (rule exI) (rule refl)
qed

lemma in_int_range_1 [simp]: "in_int_range 1"
  by (simp add: in_int_range_def INT_MIN_def INT_MAX_def)

lemma truncate_1 [simp]: "truncate_toward_zero 1 = 1"
  by (simp add: truncate_toward_zero_def)

lemma makeBox_unit:
  assumes "in_int_range (1 + border)"
  shows "makeBox border 1 1 = \<lparr>m_x = 1 + border, m_y = 1 + border\<rparr>"
  using assms by (simp add: makeBox_in_range boxInRange_def)

lemma measureHull_degenerate:
  assumes "length hullP \<le> 1" "hullP \<noteq> []" "in_int_range (1 + border)"
  shows "\<exists>off. measureHull atn CH border hullP =
           Inr (rotationAngle atn \<lparr>m_x = 1, m_y = 1\<rparr>, off, \<lparr>m_x = 1 + border, m_y = 1 + border\<rparr>)"
proof -
  let ?b = "degenerate hullP (calipers CH hullP)"
  have o: "orient atn ?b = (rotationAngle atn \<lparr>m_x = 1, m_y = 1\<rparr>, 1, 1)"
    using assms(1) by (simp add: degenerate_small orient_unit)
  obtain ext where e: "hullExtent atn (rotationAngle atn \<lparr>m_x = 1, m_y = 1\<rparr>) hullP = Inr ext"
    using hullExtent_defined [OF assms(2)] by blast
  have m: "makeBox border 1 1 = \<lparr>m_x = 1 + border, m_y = 1 + border\<rparr>"
    using assms(3) by (rule makeBox_unit)
  show ?thesis
    using o e m by (simp add: measureHull_Inr)
qed

subsection \<open>The search over the hull edges\<close>

lemma updateBest_cases: "updateBest c b = c \<or> updateBest c b = b"
  by (simp add: updateBest_def)

lemma fold_updateBest_cases:
  "fold updateBest cs b = b \<or> fold updateBest cs b \<in> set cs"
proof (induction cs arbitrary: b)
  case Nil
  show ?case by simp
next
  case (Cons c cs)
  from Cons.IH [of "updateBest c b"] updateBest_cases [of c b]
  show ?case by auto
qed

lemma fold_updateBest_not_initial:
  assumes "c \<in> set cs" and "best_area c \<le> best_area b"
  shows "fold updateBest cs b \<in> set cs"
  using assms
proof (induction cs arbitrary: b)
  case Nil
  then show ?case by simp
next
  case (Cons d cs)
  show ?case
  proof (cases "best_area d \<le> best_area b")
    case True
    then have "updateBest d b = d" by (simp add: updateBest_def)
    with fold_updateBest_cases [of cs d] show ?thesis by auto
  next
    case False
    then have u: "updateBest d b = b" by (simp add: updateBest_def)
    from False Cons.prems have "c \<in> set cs" by auto
    from Cons.IH [OF this Cons.prems(2)] u show ?thesis by simp
  qed
qed





lemma updateMax_ge: "1 \<le> updateMax m 1"
  by (simp add: updateMax_def)

lemma candidate_dims:
  "1 \<le> best_width (candidate CH hullP e) \<and> 1 \<le> best_height (candidate CH hullP e)"
  by (cases e) (simp add: candidate_def Let_def updateMax_ge split: prod.splits)

lemma candidate_area:
  "best_area (candidate CH hullP e) =
   best_height (candidate CH hullP e) * best_width (candidate CH hullP e)"
  by (cases e) (simp add: candidate_def Let_def split: prod.splits)

subsection \<open>The centering loops\<close>

lemma length_shiftRange [simp]: "length (shiftRange ax ay points count n) = length points"
  by (simp add: shiftRange_def)

lemma nth_shiftRange:
  "i < length points \<Longrightarrow>
   shiftRange ax ay points count n ! i =
     (if count \<le> i \<and> i < count + n then shiftPoint ax ay (points ! i) else points ! i)"
  by (simp add: shiftRange_def)

lemma shiftRange_0 [simp]: "shiftRange ax ay points count 0 = points"
  by (rule nth_equalityI) (simp_all add: nth_shiftRange)

lemma shiftRange_step:
  "count < length points \<Longrightarrow>
   shiftRange ax ay (points[count := shiftPoint ax ay (points ! count)]) (Suc count) n =
   shiftRange ax ay points count (Suc n)"
  by (rule nth_equalityI) (auto simp: nth_shiftRange nth_list_update)

lemma shiftRange_append:
  "shiftRange ax ay (shiftRange ax ay points count n) (count + n) m =
   shiftRange ax ay points count (n + m)"
  by (rule nth_equalityI) (auto simp: nth_shiftRange)

lemma shiftRange_all:
  "shiftRange ax ay points 0 (length points) = map (shiftPoint ax ay) points"
  by (rule nth_equalityI) (simp_all add: nth_shiftRange)

lemma at_shift_Inr:
  "count < length points \<Longrightarrow>
   at_shift ax ay points count = Inr (points[count := shiftPoint ax ay (points ! count)])"
  by (simp add: at_shift_def)

lemma centerBends_Inr:
  "count + length bends \<le> length points \<Longrightarrow>
   centerBends ax ay bends (points, count) =
     Inr (map (shiftPoint ax ay) bends, shiftRange ax ay points count (length bends),
          count + length bends)"
proof (induction bends arbitrary: points count)
  case Nil
  show ?case by simp
next
  case (Cons bend bends)
  then have c: "count < length points" by simp
  let ?points = "points[count := shiftPoint ax ay (points ! count)]"
  have "Suc count + length bends \<le> length ?points" using Cons.prems by simp
  from Cons.IH [OF this] c show ?case
    by (simp add: at_shift_Inr shiftRange_step)
qed

text \<open>The node loop as a pure update of the attributes.\<close>

lemma shiftNode_sel [simp]:
  "GA_x (shiftNode ax ay v GA) = (GA_x GA)(v := GA_x GA v - ax)"
  "GA_y (shiftNode ax ay v GA) = (GA_y GA)(v := GA_y GA v - ay)"
  "GA_bends (shiftNode ax ay v GA) = GA_bends GA"
  "attributes (shiftNode ax ay v GA) = attributes GA"
  "constGraph (shiftNode ax ay v GA) = constGraph GA"
  by (simp_all add: shiftNode_def)

lemma centerNode_Inr:
  "count < length points \<Longrightarrow>
   centerNode ax ay v (GA, points, count) =
     Inr (shiftNode ax ay v GA, points[count := shiftPoint ax ay (points ! count)], Suc count)"
  by (simp add: centerNode_def at_shift_Inr shiftNode_def Let_def)

lemma centerNodes_Inr:
  "count + length ns \<le> length points \<Longrightarrow>
   foldE (centerNode ax ay) ns (GA, points, count) =
     Inr (fold (shiftNode ax ay) ns GA, shiftRange ax ay points count (length ns), count + length ns)"
proof (induction ns arbitrary: GA points count)
  case Nil
  show ?case by simp
next
  case (Cons v ns)
  then have c: "count < length points" by simp
  let ?points = "points[count := shiftPoint ax ay (points ! count)]"
  have "Suc count + length ns \<le> length ?points" using Cons.prems by simp
  from Cons.IH [OF this] c show ?case
    by (simp add: centerNode_Inr shiftRange_step)
qed

lemma fold_shiftNode_frame:
  "attributes (fold (shiftNode ax ay) ns GA) = attributes GA \<and>
   GA_bends (fold (shiftNode ax ay) ns GA) = GA_bends GA \<and>
   constGraph (fold (shiftNode ax ay) ns GA) = constGraph GA"
  by (induction ns arbitrary: GA) simp_all

lemma fold_shiftNode_notin:
  "v \<notin> set ns \<Longrightarrow>
   GA_x (fold (shiftNode ax ay) ns GA) v = GA_x GA v \<and>
   GA_y (fold (shiftNode ax ay) ns GA) v = GA_y GA v"
  by (induction ns arbitrary: GA) simp_all

lemma fold_shiftNode_in:
  "distinct ns \<Longrightarrow> v \<in> set ns \<Longrightarrow>
   GA_x (fold (shiftNode ax ay) ns GA) v = GA_x GA v - ax \<and>
   GA_y (fold (shiftNode ax ay) ns GA) v = GA_y GA v - ay"
proof (induction ns arbitrary: GA)
  case Nil
  then show ?case by simp
next
  case (Cons u ns)
  show ?case
  proof (cases "v = u")
    case True
    with Cons.prems have "v \<notin> set ns" by simp
    from fold_shiftNode_notin [OF this, of ax ay "shiftNode ax ay u GA"] True
    show ?thesis by simp
  next
    case False
    with Cons.prems have "distinct ns" "v \<in> set ns" by simp_all
    from Cons.IH [OF this, of "shiftNode ax ay u GA"] False
    show ?thesis by simp
  qed
qed

text \<open>The edge loop.\<close>

lemma shiftEdge_sel [simp]:
  "GA_bends (shiftEdge ax ay e GA) = (GA_bends GA)(e := map (shiftPoint ax ay) (GA_bends GA e))"
  "GA_x (shiftEdge ax ay e GA) = GA_x GA"
  "GA_y (shiftEdge ax ay e GA) = GA_y GA"
  "attributes (shiftEdge ax ay e GA) = attributes GA"
  "constGraph (shiftEdge ax ay e GA) = constGraph GA"
  by (simp_all add: shiftEdge_def)

lemma centerEdge_Inr:
  "count + length (GA_bends GA e) \<le> length points \<Longrightarrow>
   centerEdge ax ay e (GA, points, count) =
     Inr (shiftEdge ax ay e GA, shiftRange ax ay points count (length (GA_bends GA e)),
          count + length (GA_bends GA e))"
  by (simp add: centerEdge_def centerBends_Inr shiftEdge_def)

lemma bendCount_shiftEdge [simp]: "bendCount (shiftEdge ax ay e GA) es = bendCount GA es"
proof -
  have "(\<lambda>f. length (GA_bends (shiftEdge ax ay e GA) f)) = (\<lambda>f. length (GA_bends GA f))"
    by (rule ext) simp
  then show ?thesis by (simp only: bendCount_def)
qed

lemma centerEdges_Inr:
  "count + bendCount GA es \<le> length points \<Longrightarrow>
   foldE (centerEdge ax ay) es (GA, points, count) =
     Inr (fold (shiftEdge ax ay) es GA, shiftRange ax ay points count (bendCount GA es),
          count + bendCount GA es)"
proof (induction es arbitrary: GA points count)
  case Nil
  show ?case by (simp add: bendCount_def)
next
  case (Cons e es)
  let ?n = "length (GA_bends GA e)"
  have n: "bendCount GA (e # es) = ?n + bendCount GA es" by (simp add: bendCount_def)
  have c: "count + ?n \<le> length points" using Cons.prems n by simp
  have "(count + ?n) + bendCount (shiftEdge ax ay e GA) es
          \<le> length (shiftRange ax ay points count ?n)"
    using Cons.prems n by simp
  from Cons.IH [OF this] c show ?case
    by (simp add: centerEdge_Inr n shiftRange_append add.assoc)
qed

lemma fold_shiftEdge_frame:
  "attributes (fold (shiftEdge ax ay) es GA) = attributes GA \<and>
   GA_x (fold (shiftEdge ax ay) es GA) = GA_x GA \<and>
   GA_y (fold (shiftEdge ax ay) es GA) = GA_y GA \<and>
   constGraph (fold (shiftEdge ax ay) es GA) = constGraph GA"
  by (induction es arbitrary: GA) simp_all

lemma fold_shiftEdge_notin:
  "e \<notin> set es \<Longrightarrow> GA_bends (fold (shiftEdge ax ay) es GA) e = GA_bends GA e"
  by (induction es arbitrary: GA) simp_all

lemma fold_shiftEdge_in:
  "distinct es \<Longrightarrow> e \<in> set es \<Longrightarrow>
   GA_bends (fold (shiftEdge ax ay) es GA) e = map (shiftPoint ax ay) (GA_bends GA e)"
proof (induction es arbitrary: GA)
  case Nil
  then show ?case by simp
next
  case (Cons f es)
  show ?case
  proof (cases "e = f")
    case True
    with Cons.prems have "e \<notin> set es" by simp
    from fold_shiftEdge_notin [OF this, of ax ay "shiftEdge ax ay f GA"] True
    show ?thesis by simp
  next
    case False
    with Cons.prems have "distinct es" "e \<in> set es" by simp_all
    from Cons.IH [OF this, of "shiftEdge ax ay f GA"] False
    show ?thesis by simp
  qed
qed

lemma nbBends_bendCount:
  "nbBends GA cc = (if has GA edgeGraphics then bendCount GA (snd cc) else 0)"
  by (simp add: nbBends_def bendCount_def)

lemma length_concat_bends: "length (concat (map (GA_bends GA) es)) = bendCount GA es"
  by (induction es) (simp_all add: bendCount_def)

lemma length_collectPoints:
  "length (collectPoints GA cc) = numberOfNodes cc + nbBends GA cc"
  by (simp add: collectPoints_def numberOfNodes_def nbBends_bendCount length_concat_bends)

lemma has_fold_shiftNode [simp]: "has (fold (shiftNode ax ay) ns GA) a = has GA a"
  by (simp add: has_def fold_shiftNode_frame)

lemma bendCount_fold_shiftNode [simp]:
  "bendCount (fold (shiftNode ax ay) ns GA) es = bendCount GA es"
  by (simp add: bendCount_def fold_shiftNode_frame)

lemma centerComponent_Inr:
  "centerComponent GA cc =
     Inr (centered (fst (average GA cc)) (snd (average GA cc)) cc GA,
          map (shiftPoint (fst (average GA cc)) (snd (average GA cc))) (collectPoints GA cc))"
proof -
  obtain ax ay where avg: "average GA cc = (ax, ay)" by (cases "average GA cc")
  let ?points = "collectPoints GA cc"
  let ?ns = "fst cc" and ?es = "snd cc"
  have len: "length ?points = length ?ns + nbBends GA cc"
    by (simp add: length_collectPoints numberOfNodes_def)
  have nodes: "foldE (centerNode ax ay) ?ns (GA, ?points, 0) =
      Inr (fold (shiftNode ax ay) ?ns GA, shiftRange ax ay ?points 0 (length ?ns), length ?ns)"
    using centerNodes_Inr [of 0 ?ns ?points ax ay GA] len by simp
  show ?thesis
  proof (cases "has GA edgeGraphics")
    case True
    then have n: "nbBends GA cc = bendCount GA ?es" by (simp add: nbBends_bendCount)
    have "foldE (centerEdge ax ay) ?es
            (fold (shiftNode ax ay) ?ns GA, shiftRange ax ay ?points 0 (length ?ns), length ?ns) =
          Inr (fold (shiftEdge ax ay) ?es (fold (shiftNode ax ay) ?ns GA),
               shiftRange ax ay (shiftRange ax ay ?points 0 (length ?ns)) (0 + length ?ns)
                 (bendCount GA ?es),
               length ?ns + bendCount GA ?es)"
      using centerEdges_Inr [of "length ?ns" "fold (shiftNode ax ay) ?ns GA" ?es
          "shiftRange ax ay ?points 0 (length ?ns)" ax ay] len n
      by simp
    moreover have "shiftRange ax ay (shiftRange ax ay ?points 0 (length ?ns)) (0 + length ?ns)
        (bendCount GA ?es) = map (shiftPoint ax ay) ?points"
      using shiftRange_all [of ax ay ?points] len n by (simp only: shiftRange_append)
    ultimately show ?thesis
      using True nodes avg by (simp add: centerComponent_def centered_def)
  next
    case False
    then have "nbBends GA cc = 0" by (simp add: nbBends_bendCount)
    with len have "shiftRange ax ay ?points 0 (length ?ns) = map (shiftPoint ax ay) ?points"
      using shiftRange_all [of ax ay ?points] by simp
    with False nodes avg show ?thesis
      by (simp add: centerComponent_def centered_def)
  qed
qed

lemma centered_nodes:
  assumes "distinct (fst cc)" and "v \<in> set (fst cc)"
  shows "GA_x (centered ax ay cc GA) v = GA_x GA v - ax \<and>
         GA_y (centered ax ay cc GA) v = GA_y GA v - ay"
  using fold_shiftNode_in [OF assms, of ax ay GA]
  by (simp add: centered_def fold_shiftEdge_frame)

lemma centered_bends:
  assumes "distinct (snd cc)" and "e \<in> set (snd cc)" and "has GA edgeGraphics"
  shows "GA_bends (centered ax ay cc GA) e = map (shiftPoint ax ay) (GA_bends GA e)"
  using fold_shiftEdge_in [OF assms(1,2), of ax ay "fold (shiftNode ax ay) (fst cc) GA"] assms(3)
  by (simp add: centered_def fold_shiftNode_frame)

lemma has_centered [simp]: "has (centered ax ay cc GA) a = has GA a"
  by (simp add: centered_def has_def fold_shiftEdge_frame fold_shiftNode_frame)

lemma collectPoints_centered:
  assumes "distinct (fst cc)" and "distinct (snd cc)"
  shows "collectPoints (centered ax ay cc GA) cc = map (shiftPoint ax ay) (collectPoints GA cc)"
proof -
  have n: "map (\<lambda>v. \<lparr>m_x = GA_x (centered ax ay cc GA) v, m_y = GA_y (centered ax ay cc GA) v\<rparr>) (fst cc)
        = map (shiftPoint ax ay) (map (\<lambda>v. \<lparr>m_x = GA_x GA v, m_y = GA_y GA v\<rparr>) (fst cc))"
    using centered_nodes [OF assms(1)] by (simp add: shiftPoint_def)
  have b: "has GA edgeGraphics \<Longrightarrow>
      concat (map (GA_bends (centered ax ay cc GA)) (snd cc))
        = map (shiftPoint ax ay) (concat (map (GA_bends GA) (snd cc)))"
  proof -
    assume h: "has GA edgeGraphics"
    have "map (GA_bends (centered ax ay cc GA)) (snd cc)
        = map (\<lambda>e. map (shiftPoint ax ay) (GA_bends GA e)) (snd cc)"
      by (rule map_cong [OF refl]) (rule centered_bends [OF assms(2) _ h])
    then have "concat (map (GA_bends (centered ax ay cc GA)) (snd cc))
        = concat (map (\<lambda>e. map (shiftPoint ax ay) (GA_bends GA e)) (snd cc))"
      by (rule arg_cong)
    also have "\<dots> = map (shiftPoint ax ay) (concat (map (GA_bends GA) (snd cc)))"
      by (simp add: map_concat comp_def)
    finally show ?thesis .
  qed
  show ?thesis using n b by (simp add: collectPoints_def)
qed

lemma sum_list_shift_x:
  "sum_list (map m_x (map (shiftPoint ax ay) ps)) = sum_list (map m_x ps) - real (length ps) * ax"
  by (induction ps) (simp_all add: shiftPoint_def algebra_simps)

lemma sum_list_shift_y:
  "sum_list (map m_y (map (shiftPoint ax ay) ps)) = sum_list (map m_y ps) - real (length ps) * ay"
  by (induction ps) (simp_all add: shiftPoint_def algebra_simps)

lemma average_eq:
  "average GA cc =
     (sum_list (map m_x (collectPoints GA cc)) / real (length (collectPoints GA cc)),
      sum_list (map m_y (collectPoints GA cc)) / real (length (collectPoints GA cc)))"
  by (simp add: average_def Let_def length_collectPoints)

lemma mean_centered:
  assumes "ps \<noteq> []"
  shows "sum_list (map m_x (map (shiftPoint (sum_list (map m_x ps) / real (length ps))
                                           (sum_list (map m_y ps) / real (length ps))) ps)) = 0"
    and "sum_list (map m_y (map (shiftPoint (sum_list (map m_x ps) / real (length ps))
                                           (sum_list (map m_y ps) / real (length ps))) ps)) = 0"
  using assms
    sum_list_shift_x [of "sum_list (map m_x ps) / real (length ps)"
      "sum_list (map m_y ps) / real (length ps)" ps]
    sum_list_shift_y [of "sum_list (map m_x ps) / real (length ps)"
      "sum_list (map m_y ps) / real (length ps)" ps]
  by simp_all

subsection \<open>The first loop over the components\<close>

lemma DBL_MAX_big: "2 \<le> DBL_MAX"
  by (simp add: DBL_MAX_def)

lemma foldE_invariant:
  assumes "foldE f xs s = Inr s'" and "P s"
    and "\<And>x s s'. x \<in> set xs \<Longrightarrow> P s \<Longrightarrow> f x s = Inr s' \<Longrightarrow> P s'"
  shows "P s'"
  using assms
proof (induction xs arbitrary: s)
  case Nil
  then show ?case by simp
next
  case (Cons x xs)
  from Cons.prems(1) obtain s1 where s1: "f x s = Inr s1" and rest: "foldE f xs s1 = Inr s'"
    by (auto split: sum.splits)
  have s1P: "P s1" using Cons.prems(3) [of x s s1] Cons.prems(2) s1 by simp
  show ?case
  proof (rule Cons.IH [OF rest s1P])
    fix y t t'
    assume "y \<in> set xs" "P t" "f y t = Inr t'"
    then show "P t'" using Cons.prems(3) [of y t t'] by simp
  qed
qed

lemma processComponent_Inr:
  "processComponent atn CH border cc (GA, box, oldOffset, rotation) = Inr r \<longleftrightarrow>
     (\<exists>angle off bx.
        measureHull atn CH border
          (CH_call CH (map (shiftPoint (fst (average GA cc)) (snd (average GA cc)))
             (collectPoints GA cc))) = Inr (angle, off, bx) \<and>
        r = (centered (fst (average GA cc)) (snd (average GA cc)) cc GA,
             box @ [bx], oldOffset @ [off], rotation @ [angle]))"
  by (auto simp: processComponent_def centerComponent_Inr bindE_eq_Inr)

lemma orient_sizes:
  assumes "orient atn b = (angle, w, h)"
  shows "(w = best_width b \<and> h = best_height b) \<or> (w = best_height b \<and> h = best_width b)"
  using assms by (auto simp: orient_def Let_def split: if_splits)

lemma orient_in_range:
  assumes "orient atn b = (angle, w, h)" and "boxInRange border (best_width b) (best_height b)"
  shows "boxInRange border w h"
  using orient_sizes [OF assms(1)] assms(2) boxInRange_commute by blast

lemma measureHull_box_order:
  assumes m: "measureHull atn CH border hullP = Inr (angle, off, bx)"
    and r: "boxInRange border (best_width (degenerate hullP (calipers CH hullP)))
              (best_height (degenerate hullP (calipers CH hullP)))"
  shows "m_y bx \<le> m_x bx"
proof -
  from m obtain w h where o: "orient atn (degenerate hullP (calipers CH hullP)) = (angle, w, h)"
    and b: "bx = makeBox border w h"
    by (auto simp: measureHull_Inr)
  from o have "h \<le> w" by (rule orient_width_ge_height)
  then have "truncate_toward_zero h \<le> truncate_toward_zero w" by (rule truncate_mono)
  with b show ?thesis by (simp add: makeBox_in_range [OF orient_in_range [OF o r]])
qed

lemma orient_swap:
  "best_width b < best_height b \<Longrightarrow>
   orient atn b = (rotationAngle atn (best_normal b) + 0.5 * pi, best_height b, best_width b)"
  by (simp add: orient_def)

lemma calipers_dims:
  assumes "c \<in> set (candidates CH hullP)" and "best_area c \<le> DBL_MAX"
  shows "1 \<le> best_width (calipers CH hullP) \<and> 1 \<le> best_height (calipers CH hullP)"
proof -
  have "calipers CH hullP \<in> set (candidates CH hullP)"
    unfolding calipers_def
    using assms by (intro fold_updateBest_not_initial [of c]) (simp_all add: initialBest_def)
  then show ?thesis by (auto simp: candidates_def candidate_dims)
qed

lemma orient_dims:
  assumes "orient atn b = (angle, w, h)" and "1 \<le> best_width b" and "1 \<le> best_height b"
  shows "1 \<le> w \<and> 1 \<le> h"
  using assms by (auto simp: orient_def Let_def split: if_splits)

lemma measureHull_box_lower:
  assumes m: "measureHull atn CH border hullP = Inr (angle, off, bx)"
    and fin: "length hullP \<le> 1 \<or> (\<exists>c\<in>set (candidates CH hullP). best_area c \<le> DBL_MAX)"
    and r: "boxInRange border (best_width (degenerate hullP (calipers CH hullP)))
              (best_height (degenerate hullP (calipers CH hullP)))"
  shows "1 + border \<le> m_x bx \<and> 1 + border \<le> m_y bx"
proof -
  let ?b = "degenerate hullP (calipers CH hullP)"
  from m obtain w h where o: "orient atn ?b = (angle, w, h)"
    and b: "bx = makeBox border w h"
    by (auto simp: measureHull_Inr)
  have "1 \<le> best_width ?b \<and> 1 \<le> best_height ?b"
  proof (cases "length hullP \<le> 1")
    case True
    then show ?thesis by (simp add: degenerate_small)
  next
    case False
    with fin obtain c where "c \<in> set (candidates CH hullP)" "best_area c \<le> DBL_MAX" by blast
    from calipers_dims [OF this] False show ?thesis by (simp add: degenerate_def)
  qed
  with o have "1 \<le> w \<and> 1 \<le> h" using orient_dims by blast
  then have "1 \<le> truncate_toward_zero w \<and> 1 \<le> truncate_toward_zero h"
    by (simp add: truncate_ge_1)
  with b show ?thesis by (simp add: makeBox_in_range [OF orient_in_range [OF o r]])
qed

lemma processComponent_single:
  assumes "length (CH_call CH [\<lparr>m_x = 0, m_y = 0\<rparr>]) = 1" and "in_int_range (1 + border)"
  shows "\<exists>GA' off. processComponent atn CH border ([v], []) (GA, box, oldOffset, rotation) =
     Inr (GA', box @ [\<lparr>m_x = 1 + border, m_y = 1 + border\<rparr>], oldOffset @ [off],
          rotation @ [rotationAngle atn \<lparr>m_x = 1, m_y = 1\<rparr>])"
proof -
  let ?cc = "([v], []) :: component"
  have pts: "map (shiftPoint (fst (average GA ?cc)) (snd (average GA ?cc))) (collectPoints GA ?cc)
      = [\<lparr>m_x = 0, m_y = 0\<rparr>]"
    by (simp add: average_eq collectPoints_def shiftPoint_def)
  let ?h = "CH_call CH [\<lparr>m_x = 0, m_y = 0\<rparr>]"
  from assms(1) have "length ?h \<le> 1" "?h \<noteq> []" by auto
  from measureHull_degenerate [OF this assms(2), of atn CH] obtain off where
    "measureHull atn CH border ?h =
       Inr (rotationAngle atn \<lparr>m_x = 1, m_y = 1\<rparr>, off, \<lparr>m_x = 1 + border, m_y = 1 + border\<rparr>)"
    by blast
  then show ?thesis
    by (simp add: processComponent_Inr pts)
qed

subsection \<open>The first loop on the small instance\<close>

lemma exGA_collect:
  "collectPoints exGA exCC1 =
     [\<lparr>m_x = 0, m_y = 0\<rparr>, \<lparr>m_x = 2, m_y = 0\<rparr>, \<lparr>m_x = 2, m_y = 1\<rparr>, \<lparr>m_x = 0, m_y = 1\<rparr>]"
  by (simp add: collectPoints_def exGA_def has_def exCC1_def)

lemma exGA_average: "average exGA exCC1 = (1, 1 / 2)"
  by (simp add: average_eq exGA_collect)

lemma exGA_centered_points:
  "map (shiftPoint (fst (average exGA exCC1)) (snd (average exGA exCC1)))
     (collectPoints exGA exCC1) = exCentered"
  by (simp add: exGA_average exGA_collect shiftPoint_def exCentered_def)

lemma exCentered_candidates:
  "candidates exCH exCentered =
     [\<lparr>best_area = 8, best_normal = \<lparr>m_x = 0, m_y = 2\<rparr>, best_width = 4, best_height = 2\<rparr>,
      \<lparr>best_area = 2, best_normal = \<lparr>m_x = - 1, m_y = 0\<rparr>, best_width = 1, best_height = 2\<rparr>,
      \<lparr>best_area = 8, best_normal = \<lparr>m_x = 0, m_y = - 2\<rparr>, best_width = 4, best_height = 2\<rparr>,
      \<lparr>best_area = 2, best_normal = \<lparr>m_x = 1, m_y = 0\<rparr>, best_width = 1, best_height = 2\<rparr>]"
  by (simp add: candidates_def hullEdges_def exCentered_def candidate_def exCH_def maxDist_def
      leftRight_def updateMax_def)

lemma exCentered_calipers:
  "calipers exCH exCentered =
     \<lparr>best_area = 2, best_normal = \<lparr>m_x = 1, m_y = 0\<rparr>, best_width = 1, best_height = 2\<rparr>"
  using DBL_MAX_big
  by (simp add: calipers_def exCentered_candidates updateBest_def initialBest_def)

lemma exCentered_orient:
  "orient atan2_pz (degenerate exCentered (calipers exCH exCentered)) =
     (rotationAngle atan2_pz \<lparr>m_x = 1, m_y = 0\<rparr> + 0.5 * pi, 2, 1)"
proof -
  have "length exCentered = 4" by (simp add: exCentered_def)
  then show ?thesis by (simp add: exCentered_calipers orient_def degenerate_def)
qed

lemma in_int_range_small: "\<bar>i\<bar> \<le> 1000 \<Longrightarrow> in_int_range i"
  by (auto simp: in_int_range_def INT_MIN_def INT_MAX_def)

lemma makeBox_ex: "makeBox 30 2 1 = \<lparr>m_x = 32, m_y = 31\<rparr>"
  by (simp add: makeBox_in_range boxInRange_def truncate_toward_zero_def in_int_range_small)

lemma measureHull_defined:
  assumes "hullP \<noteq> []"
    and "orient atn (degenerate hullP (calipers CH hullP)) = (angle, w, h)"
    and "makeBox border w h = bx"
  shows "\<exists>off. measureHull atn CH border hullP = Inr (angle, off, bx)"
proof -
  from hullExtent_defined [OF assms(1), of atn angle] obtain ext
    where "hullExtent atn angle hullP = Inr ext" by blast
  with assms(2,3) show ?thesis by (simp add: measureHull_Inr)
qed

lemma exGA_process_first:
  "\<exists>GA1 off. processComponent atan2_pz exCH 30 exCC1 (exGA, [], [], []) =
     Inr (GA1, [\<lparr>m_x = 32, m_y = 31\<rparr>], [off], [rotationAngle atan2_pz \<lparr>m_x = 1, m_y = 0\<rparr> + 0.5 * pi])"
proof -
  have h: "CH_call exCH exCentered = exCentered" by (simp add: exCH_def)
  have "exCentered \<noteq> []" by (simp add: exCentered_def)
  from measureHull_defined [OF this exCentered_orient makeBox_ex] obtain off where
    "measureHull atan2_pz exCH 30 exCentered =
       Inr (rotationAngle atan2_pz \<lparr>m_x = 1, m_y = 0\<rparr> + 0.5 * pi, off, \<lparr>m_x = 32, m_y = 31\<rparr>)"
    by blast
  then show ?thesis
    by (simp add: processComponent_Inr exGA_centered_points h)
qed

lemma exGA_measure:
  "\<exists>GA' oldOffset. measureComponents atan2_pz exCH 30 exCCs exGA =
     Inr (GA', [\<lparr>m_x = 32, m_y = 31\<rparr>, \<lparr>m_x = 31, m_y = 31\<rparr>], oldOffset,
          [rotationAngle atan2_pz \<lparr>m_x = 1, m_y = 0\<rparr> + 0.5 * pi, rotationAngle atan2_pz \<lparr>m_x = 1, m_y = 1\<rparr>])"
proof -
  from exGA_process_first obtain GA1 off1 where
    p1: "processComponent atan2_pz exCH 30 exCC1 (exGA, [], [], []) =
      Inr (GA1, [\<lparr>m_x = 32, m_y = 31\<rparr>], [off1], [rotationAngle atan2_pz \<lparr>m_x = 1, m_y = 0\<rparr> + 0.5 * pi])"
    by blast
  have "length (CH_call exCH [\<lparr>m_x = 0, m_y = 0\<rparr>]) = 1" by (simp add: exCH_def)
  from processComponent_single [OF this, of 30 atan2_pz 3 GA1 "[\<lparr>m_x = 32, m_y = 31\<rparr>]" "[off1]"
      "[rotationAngle atan2_pz \<lparr>m_x = 1, m_y = 0\<rparr> + 0.5 * pi]"]
  obtain GA2 off2 where
    p2: "processComponent atan2_pz exCH 30 exCC2 (GA1, [\<lparr>m_x = 32, m_y = 31\<rparr>], [off1],
           [rotationAngle atan2_pz \<lparr>m_x = 1, m_y = 0\<rparr> + 0.5 * pi]) =
      Inr (GA2, [\<lparr>m_x = 32, m_y = 31\<rparr>, \<lparr>m_x = 31, m_y = 31\<rparr>], [off1, off2],
           [rotationAngle atan2_pz \<lparr>m_x = 1, m_y = 0\<rparr> + 0.5 * pi, rotationAngle atan2_pz \<lparr>m_x = 1, m_y = 1\<rparr>])"
    by (auto simp: in_int_range_small exCC2_def)
  have "measureComponents atan2_pz exCH 30 exCCs exGA =
      Inr (GA2, [\<lparr>m_x = 32, m_y = 31\<rparr>, \<lparr>m_x = 31, m_y = 31\<rparr>], [off1, off2],
           [rotationAngle atan2_pz \<lparr>m_x = 1, m_y = 0\<rparr> + 0.5 * pi, rotationAngle atan2_pz \<lparr>m_x = 1, m_y = 1\<rparr>])"
    by (simp only: measureComponents_def exCCs_def foldE.simps p1 p2 sum.case)
  then show ?thesis by blast
qed

subsection \<open>The final transform\<close>

text \<open>The polar form used by the program is the rotation of the plane.\<close>

lemma sqrt_sum_squares_pos:
  assumes "0 < x"
  shows "sqrt (x * x + y * y) = x * sqrt (1 + (y / x)\<^sup>2)"
proof -
  have "x * x + y * y = x\<^sup>2 * (1 + (y / x)\<^sup>2)"
    using assms by (simp add: power2_eq_square field_simps)
  then have "sqrt (x * x + y * y) = sqrt (x\<^sup>2) * sqrt (1 + (y / x)\<^sup>2)"
    by (simp add: real_sqrt_mult)
  then show ?thesis using assms by simp
qed

lemma sqrt_sum_squares_neg:
  assumes "x < 0"
  shows "sqrt (x * x + y * y) = - x * sqrt (1 + (y / x)\<^sup>2)"
proof -
  have "x * x + y * y = x\<^sup>2 * (1 + (y / x)\<^sup>2)"
    using assms by (simp add: power2_eq_square field_simps)
  then have "sqrt (x * x + y * y) = sqrt (x\<^sup>2) * sqrt (1 + (y / x)\<^sup>2)"
    by (simp add: real_sqrt_mult)
  then show ?thesis using assms by simp
qed

lemma sqrt_one_plus_pos: "0 < sqrt (1 + (t::real)\<^sup>2)"
  by (simp add: add_pos_nonneg)

lemma polar_cos_pz: "sqrt (x * x + y * y) * cos (atan2_pz y x) = x"
proof -
  let ?s = "sqrt (1 + (y / x)\<^sup>2)"
  have s: "?s \<noteq> 0" using sqrt_one_plus_pos [of "y / x"] by simp
  consider "0 < x" | "x < 0" | "x = 0" by linarith
  then show ?thesis
  proof cases
    case 1
    then show ?thesis using s
      by (simp add: atan2_pz_def sqrt_sum_squares_pos cos_arctan)
  next
    case 2
    then show ?thesis using s
      by (simp add: atan2_pz_def sqrt_sum_squares_neg cos_arctan)
  next
    case 3
    then show ?thesis by (simp add: atan2_pz_def)
  qed
qed

lemma polar_sin_pz: "sqrt (x * x + y * y) * sin (atan2_pz y x) = y"
proof -
  let ?s = "sqrt (1 + (y / x)\<^sup>2)"
  have s: "?s \<noteq> 0" using sqrt_one_plus_pos [of "y / x"] by simp
  consider "0 < x" | "x < 0" | "x = 0" by linarith
  then show ?thesis
  proof cases
    case 1
    then show ?thesis using s
      by (simp add: atan2_pz_def sqrt_sum_squares_pos sin_arctan)
  next
    case 2
    then show ?thesis using s
      by (simp add: atan2_pz_def sqrt_sum_squares_neg sin_arctan)
  next
    case 3
    then show ?thesis by (simp add: atan2_pz_def)
  qed
qed

text \<open>
  The values of \<open>atan2\<close> that depend on the sign of a zero differ by a turn, or belong to
  the zero vector: every admissible function gives the same polar form.
\<close>

lemma atan2_results_cases:
  assumes "a \<in> set (atan2_results y x)"
  shows "a = atan2_pz y x \<or> (a = - pi \<and> y = 0 \<and> x < 0) \<or> (x = 0 \<and> y = 0)"
  using assms by (auto simp: atan2_results_def atan2_pz_def split: if_splits)

lemma libm_atan2_pz: "libm_atan2 atan2_pz"
  by (simp add: libm_atan2_def atan2_results_def atan2_pz_def)

lemma polar_result:
  assumes "a \<in> set (atan2_results y x)"
  shows "sqrt (x * x + y * y) * cos a = x \<and> sqrt (x * x + y * y) * sin a = y"
proof -
  from atan2_results_cases [OF assms]
  consider "a = atan2_pz y x" | "a = - pi" "y = 0" "x < 0" | "x = 0" "y = 0" by blast
  then show ?thesis
  proof cases
    case 1
    then show ?thesis by (simp only: polar_cos_pz polar_sin_pz)
  next
    case 2
    have "sqrt (x * x) = - x" using 2(3) by (simp add: real_sqrt_mult_self)
    then show ?thesis using 2 by simp
  next
    case 3
    then show ?thesis by simp
  qed
qed

lemma polar_cos: "libm_atan2 atn \<Longrightarrow> sqrt (x * x + y * y) * cos (atn y x) = x"
  using polar_result [of "atn y x" y x] by (simp add: libm_atan2_def)

lemma polar_sin: "libm_atan2 atn \<Longrightarrow> sqrt (x * x + y * y) * sin (atn y x) = y"
  using polar_result [of "atn y x" y x] by (simp add: libm_atan2_def)

lemma polar_rotate_x:
  assumes "libm_atan2 atn"
  shows "cos (atn y x + a) * sqrt (x * x + y * y) = x * cos a - y * sin a"
proof -
  have "cos (atn y x + a) * sqrt (x * x + y * y) =
      (sqrt (x * x + y * y) * cos (atn y x)) * cos a
      - (sqrt (x * x + y * y) * sin (atn y x)) * sin a"
    by (simp add: cos_add algebra_simps)
  then show ?thesis by (simp only: polar_cos [OF assms] polar_sin [OF assms])
qed

lemma polar_rotate_y:
  assumes "libm_atan2 atn"
  shows "sin (atn y x + a) * sqrt (x * x + y * y) = x * sin a + y * cos a"
proof -
  have "sin (atn y x + a) * sqrt (x * x + y * y) =
      (sqrt (x * x + y * y) * sin (atn y x)) * cos a
      + (sqrt (x * x + y * y) * cos (atn y x)) * sin a"
    by (simp add: sin_add algebra_simps)
  then show ?thesis by (simp only: polar_cos [OF assms] polar_sin [OF assms] add.commute)
qed

lemma rotateHullPoint_rotation:
  assumes "libm_atan2 atn"
  shows "rotateHullPoint atn angle p =
     \<lparr>m_x = m_x p * cos angle - m_y p * sin angle, m_y = m_x p * sin angle + m_y p * cos angle\<rparr>"
  by (simp add: rotateHullPoint_def Let_def polar_rotate_x [OF assms] polar_rotate_y [OF assms])

lemma rotatePoint_Inr:
  assumes "libm_atan2 atn"
    and "index < length rotation" "index < length offset" "index < length oldOffset"
  shows "rotatePoint atn rotation offset oldOffset p index =
     Inr \<lparr>m_x = m_x p * cos (rotation ! index) - m_y p * sin (rotation ! index)
                + real_of_int (m_x (offset ! index)) - m_x (oldOffset ! index),
          m_y = m_x p * sin (rotation ! index) + m_y p * cos (rotation ! index)
                + real_of_int (m_y (offset ! index)) - m_y (oldOffset ! index)\<rparr>"
  using assms by (simp add: rotatePoint_def Let_def polar_rotate_x polar_rotate_y)

lemma transformNode_Inr:
  "transformNode rp index v GA = Inr GA' \<longleftrightarrow>
     (\<exists>p. rp (point_of GA v) index = Inr p \<and>
          GA' = GA\<lparr>GA_x := (GA_x GA)(v := m_x p), GA_y := (GA_y GA)(v := m_y p)\<rparr>)"
  by (auto simp: transformNode_def bindE_eq_Inr point_of_def)

lemma transformNodes_frame:
  assumes "foldE (transformNode rp index) ns GA = Inr GA'"
  shows "attributes GA' = attributes GA \<and> GA_bends GA' = GA_bends GA \<and>
         (\<forall>v. v \<notin> set ns \<longrightarrow> point_of GA' v = point_of GA v)"
  using assms
proof (induction ns arbitrary: GA)
  case Nil
  then show ?case by simp
next
  case (Cons u ns)
  from Cons.prems obtain GA1 where u: "transformNode rp index u GA = Inr GA1"
    and rest: "foldE (transformNode rp index) ns GA1 = Inr GA'"
    by (auto split: sum.splits)
  from u [unfolded transformNode_Inr] obtain p
    where pp: "rp (point_of GA u) index = Inr p \<and>
      GA1 = GA\<lparr>GA_x := (GA_x GA)(u := m_x p), GA_y := (GA_y GA)(u := m_y p)\<rparr>" ..
  note GA1 = pp [THEN conjunct2]
  from Cons.IH [OF rest] show ?case by (simp add: GA1 point_of_def)
qed

lemma transformNodes_points:
  assumes "foldE (transformNode rp index) ns GA = Inr GA'" and "distinct ns" and "v \<in> set ns"
  shows "rp (point_of GA v) index = Inr (point_of GA' v)"
  using assms
proof (induction ns arbitrary: GA)
  case Nil
  then show ?case by simp
next
  case (Cons u ns)
  from Cons.prems(1) obtain GA1 where u: "transformNode rp index u GA = Inr GA1"
    and rest: "foldE (transformNode rp index) ns GA1 = Inr GA'"
    by (auto split: sum.splits)
  from u [unfolded transformNode_Inr] obtain p
    where pp: "rp (point_of GA u) index = Inr p \<and>
      GA1 = GA\<lparr>GA_x := (GA_x GA)(u := m_x p), GA_y := (GA_y GA)(u := m_y p)\<rparr>" ..
  note p = pp [THEN conjunct1] and GA1 = pp [THEN conjunct2]
  show ?case
  proof (cases "v = u")
    case True
    with Cons.prems(2) have "v \<notin> set ns" by simp
    with transformNodes_frame [OF rest] have "point_of GA' v = point_of GA1 v" by blast
    also have "\<dots> = p" using True by (simp add: GA1 point_of_def)
    finally show ?thesis using p True by simp
  next
    case False
    with Cons.prems have "distinct ns" "v \<in> set ns" by simp_all
    from Cons.IH [OF rest this] False show ?thesis by (simp add: GA1 point_of_def)
  qed
qed

lemma transformNodes_defined:
  assumes "\<And>p. \<exists>q. rp p index = Inr q"
  shows "\<exists>GA'. foldE (transformNode rp index) ns GA = Inr GA'"
proof (induction ns arbitrary: GA)
  case Nil
  show ?case by simp
next
  case (Cons u ns)
  from assms [of "point_of GA u"] obtain q where "rp (point_of GA u) index = Inr q" by blast
  then obtain GA1 where "transformNode rp index u GA = Inr GA1"
    by (auto simp: transformNode_Inr)
  with Cons.IH [of GA1] show ?case by simp
qed

lemma transformEdge_Inr:
  "transformEdge rp index e GA = Inr GA' \<longleftrightarrow>
     (\<exists>bends. mapE (\<lambda>bend. rp bend index) (GA_bends GA e) = Inr bends \<and>
          GA' = GA\<lparr>GA_bends := (GA_bends GA)(e := bends)\<rparr>)"
  by (auto simp: transformEdge_def bindE_eq_Inr)

lemma transformEdges_frame:
  assumes "foldE (transformEdge rp index) es GA = Inr GA'"
  shows "attributes GA' = attributes GA \<and> GA_x GA' = GA_x GA \<and> GA_y GA' = GA_y GA \<and>
         (\<forall>e. e \<notin> set es \<longrightarrow> GA_bends GA' e = GA_bends GA e)"
  using assms
proof (induction es arbitrary: GA)
  case Nil
  then show ?case by simp
next
  case (Cons f es)
  from Cons.prems obtain GA1 where f: "transformEdge rp index f GA = Inr GA1"
    and rest: "foldE (transformEdge rp index) es GA1 = Inr GA'"
    by (auto split: sum.splits)
  from f [unfolded transformEdge_Inr] obtain bends
    where bb: "mapE (\<lambda>bend. rp bend index) (GA_bends GA f) = Inr bends \<and>
      GA1 = GA\<lparr>GA_bends := (GA_bends GA)(f := bends)\<rparr>" ..
  note GA1 = bb [THEN conjunct2]
  from Cons.IH [OF rest] show ?case by (simp add: GA1)
qed

lemma transformEdges_bends:
  assumes "foldE (transformEdge rp index) es GA = Inr GA'" and "distinct es" and "e \<in> set es"
  shows "mapE (\<lambda>bend. rp bend index) (GA_bends GA e) = Inr (GA_bends GA' e)"
  using assms
proof (induction es arbitrary: GA)
  case Nil
  then show ?case by simp
next
  case (Cons f es)
  from Cons.prems(1) obtain GA1 where f: "transformEdge rp index f GA = Inr GA1"
    and rest: "foldE (transformEdge rp index) es GA1 = Inr GA'"
    by (auto split: sum.splits)
  from f [unfolded transformEdge_Inr] obtain bends
    where bb: "mapE (\<lambda>bend. rp bend index) (GA_bends GA f) = Inr bends \<and>
      GA1 = GA\<lparr>GA_bends := (GA_bends GA)(f := bends)\<rparr>" ..
  note b = bb [THEN conjunct1] and GA1 = bb [THEN conjunct2]
  show ?case
  proof (cases "e = f")
    case True
    with Cons.prems(2) have "e \<notin> set es" by simp
    with transformEdges_frame [OF rest] have "GA_bends GA' e = GA_bends GA1 e" by blast
    also have "\<dots> = bends" using True by (simp add: GA1)
    finally show ?thesis using b True by simp
  next
    case False
    with Cons.prems have "distinct es" "e \<in> set es" by simp_all
    from Cons.IH [OF rest this] False show ?thesis by (simp add: GA1)
  qed
qed

lemma mapE_defined:
  assumes "\<And>p. \<exists>q. f p = Inr q"
  shows "\<exists>ys. mapE f xs = Inr ys"
proof (induction xs)
  case Nil
  show ?case by simp
next
  case (Cons x xs)
  from assms [of x] obtain q where "f x = Inr q" by blast
  with Cons.IH show ?case by auto
qed

lemma transformEdges_defined:
  assumes "\<And>p. \<exists>q. rp p index = Inr q"
  shows "\<exists>GA'. foldE (transformEdge rp index) es GA = Inr GA'"
proof (induction es arbitrary: GA)
  case Nil
  show ?case by simp
next
  case (Cons f es)
  from mapE_defined [of "\<lambda>bend. rp bend index" "GA_bends GA f"] assms
  obtain bends where "mapE (\<lambda>bend. rp bend index) (GA_bends GA f) = Inr bends" by blast
  then obtain GA1 where "transformEdge rp index f GA = Inr GA1"
    by (auto simp: transformEdge_Inr)
  with Cons.IH [of GA1] show ?case by simp
qed

lemma transformComponent_Inr:
  "transformComponent rp cc (GA, index) = Inr r \<longleftrightarrow>
     (\<exists>GA1 GA2. foldE (transformNode rp index) (fst cc) GA = Inr GA1 \<and>
        (if has GA1 edgeGraphics then foldE (transformEdge rp index) (snd cc) GA1 else Inr GA1)
          = Inr GA2 \<and>
        r = (GA2, Suc index))"
  by (auto simp: transformComponent_def bindE_eq_Inr)

lemma transformComponent_props:
  assumes "transformComponent rp cc (GA, index) = Inr (GA', index')"
  shows "index' = Suc index"
    and "attributes GA' = attributes GA"
    and "v \<notin> set (fst cc) \<Longrightarrow> point_of GA' v = point_of GA v"
    and "e \<notin> set (snd cc) \<Longrightarrow> GA_bends GA' e = GA_bends GA e"
    and "distinct (fst cc) \<Longrightarrow> v \<in> set (fst cc) \<Longrightarrow> rp (point_of GA v) index = Inr (point_of GA' v)"
    and "has GA edgeGraphics \<Longrightarrow> distinct (snd cc) \<Longrightarrow> e \<in> set (snd cc) \<Longrightarrow>
         mapE (\<lambda>bend. rp bend index) (GA_bends GA e) = Inr (GA_bends GA' e)"
proof -
  from assms [unfolded transformComponent_Inr] obtain GA1 GA2 where
    n: "foldE (transformNode rp index) (fst cc) GA = Inr GA1"
    and e2: "(if has GA1 edgeGraphics then foldE (transformEdge rp index) (snd cc) GA1 else Inr GA1)
          = Inr GA2"
    and r: "(GA', index') = (GA2, Suc index)"
    by (elim exE conjE)
  from r have i: "index' = Suc index" and g: "GA2 = GA'" by simp_all
  note e = e2 [unfolded g]
  note fn = transformNodes_frame [OF n]
  from fn have h: "has GA1 edgeGraphics = has GA edgeGraphics" by (simp add: has_def)
  have fe: "attributes GA' = attributes GA1 \<and> GA_x GA' = GA_x GA1 \<and> GA_y GA' = GA_y GA1 \<and>
         (\<forall>e. e \<notin> set (snd cc) \<longrightarrow> GA_bends GA' e = GA_bends GA1 e)"
  proof (cases "has GA1 edgeGraphics")
    case True
    with e have "foldE (transformEdge rp index) (snd cc) GA1 = Inr GA'" by simp
    then show ?thesis by (rule transformEdges_frame)
  next
    case False
    with e show ?thesis by simp
  qed
  then have pt: "\<And>u. point_of GA' u = point_of GA1 u" by (simp add: point_of_def)
  show "index' = Suc index" by (rule i)
  show "attributes GA' = attributes GA" using fn fe by simp
  show "v \<notin> set (fst cc) \<Longrightarrow> point_of GA' v = point_of GA v" using fn pt by simp
  show "e \<notin> set (snd cc) \<Longrightarrow> GA_bends GA' e = GA_bends GA e" using fn fe by simp
  show "distinct (fst cc) \<Longrightarrow> v \<in> set (fst cc) \<Longrightarrow> rp (point_of GA v) index = Inr (point_of GA' v)"
    using transformNodes_points [OF n] pt by simp
  show "has GA edgeGraphics \<Longrightarrow> distinct (snd cc) \<Longrightarrow> e \<in> set (snd cc) \<Longrightarrow>
         mapE (\<lambda>bend. rp bend index) (GA_bends GA e) = Inr (GA_bends GA' e)"
  proof -
    assume a: "has GA edgeGraphics" "distinct (snd cc)" "e \<in> set (snd cc)"
    with e h have "foldE (transformEdge rp index) (snd cc) GA1 = Inr GA'" by simp
    from transformEdges_bends [OF this a(2,3)] fn show ?thesis by simp
  qed
qed

lemma transformComponent_defined:
  assumes "\<And>p. \<exists>q. rp p index = Inr q"
  shows "\<exists>GA'. transformComponent rp cc (GA, index) = Inr (GA', Suc index)"
proof -
  from transformNodes_defined [of rp index "fst cc" GA] assms obtain GA1 where
    n: "foldE (transformNode rp index) (fst cc) GA = Inr GA1" by blast
  from transformEdges_defined [of rp index "snd cc" GA1] assms obtain GA2 where
    e: "foldE (transformEdge rp index) (snd cc) GA1 = Inr GA2" by blast
  show ?thesis
    using n e by (cases "has GA1 edgeGraphics") (simp_all add: transformComponent_Inr)
qed

lemma transformComponents_frame:
  assumes "foldE (transformComponent rp) ccs (GA, index) = Inr (GA', index')"
  shows "index' = index + length ccs \<and> attributes GA' = attributes GA \<and>
         (\<forall>v. v \<notin> set (concat (map fst ccs)) \<longrightarrow> point_of GA' v = point_of GA v) \<and>
         (\<forall>e. e \<notin> set (concat (map snd ccs)) \<longrightarrow> GA_bends GA' e = GA_bends GA e)"
  using assms
proof (induction ccs arbitrary: GA index)
  case Nil
  then show ?case by simp
next
  case (Cons cc ccs)
  from Cons.prems obtain s1 where "transformComponent rp cc (GA, index) = Inr s1"
    and "foldE (transformComponent rp) ccs s1 = Inr (GA', index')"
    by (auto split: sum.splits)
  then obtain GA1 i1 where c: "transformComponent rp cc (GA, index) = Inr (GA1, i1)"
    and rest: "foldE (transformComponent rp) ccs (GA1, i1) = Inr (GA', index')"
    by (cases s1) simp
  note p = transformComponent_props [OF c]
  from Cons.IH [OF rest] p(1,2) p(3,4) show ?case by simp
qed

lemma transformComponents_points:
  assumes "foldE (transformComponent rp) ccs (GA, index) = Inr (GA', index')"
    and "distinct (concat (map fst ccs))" and "distinct (concat (map snd ccs))"
    and "j < length ccs"
  shows "(\<forall>v\<in>set (fst (ccs ! j)). rp (point_of GA v) (index + j) = Inr (point_of GA' v)) \<and>
         (has GA edgeGraphics \<longrightarrow>
            (\<forall>e\<in>set (snd (ccs ! j)).
               mapE (\<lambda>bend. rp bend (index + j)) (GA_bends GA e) = Inr (GA_bends GA' e)))"
  using assms
proof (induction ccs arbitrary: GA index j)
  case Nil
  then show ?case by simp
next
  case (Cons cc ccs)
  from Cons.prems(1) obtain s1 where "transformComponent rp cc (GA, index) = Inr s1"
    and "foldE (transformComponent rp) ccs s1 = Inr (GA', index')"
    by (auto split: sum.splits)
  then obtain GA1 i1 where c: "transformComponent rp cc (GA, index) = Inr (GA1, i1)"
    and rest: "foldE (transformComponent rp) ccs (GA1, i1) = Inr (GA', index')"
    by (cases s1) simp
  note p = transformComponent_props [OF c]
  note fr = transformComponents_frame [OF rest]
  from Cons.prems(2) have dn: "distinct (fst cc)" "distinct (concat (map fst ccs))"
    and disjn: "set (fst cc) \<inter> set (concat (map fst ccs)) = {}"
    by simp_all
  from Cons.prems(3) have de: "distinct (snd cc)" "distinct (concat (map snd ccs))"
    and disje: "set (snd cc) \<inter> set (concat (map snd ccs)) = {}"
    by simp_all
  have h1: "has GA1 edgeGraphics = has GA edgeGraphics" using p(2) by (simp add: has_def)
  show ?case
  proof (cases j)
    case 0
    have "\<forall>v\<in>set (fst cc). rp (point_of GA v) index = Inr (point_of GA' v)"
    proof
      fix v assume v: "v \<in> set (fst cc)"
      with disjn have "v \<notin> set (concat (map fst ccs))" by blast
      with fr have "point_of GA' v = point_of GA1 v" by blast
      with p(5) [OF dn(1) v] show "rp (point_of GA v) index = Inr (point_of GA' v)" by simp
    qed
    moreover have "has GA edgeGraphics \<longrightarrow>
        (\<forall>e\<in>set (snd cc). mapE (\<lambda>bend. rp bend index) (GA_bends GA e) = Inr (GA_bends GA' e))"
    proof (intro impI ballI)
      fix e assume h: "has GA edgeGraphics" and e: "e \<in> set (snd cc)"
      with disje have "e \<notin> set (concat (map snd ccs))" by blast
      with fr have "GA_bends GA' e = GA_bends GA1 e" by blast
      with p(6) [OF h de(1) e]
      show "mapE (\<lambda>bend. rp bend index) (GA_bends GA e) = Inr (GA_bends GA' e)" by simp
    qed
    ultimately show ?thesis using 0 by simp
  next
    case (Suc k)
    with Cons.prems(4) have k: "k < length ccs" by simp
    note IH = Cons.IH [OF rest dn(2) de(2) k]
    have "\<forall>v\<in>set (fst (ccs ! k)). rp (point_of GA v) (index + Suc k) = Inr (point_of GA' v)"
    proof
      fix v assume v: "v \<in> set (fst (ccs ! k))"
      with k have "v \<in> set (concat (map fst ccs))" by auto
      with disjn have "v \<notin> set (fst cc)" by blast
      then have same: "point_of GA1 v = point_of GA v" by (rule p(3))
      from IH v have "rp (point_of GA1 v) (i1 + k) = Inr (point_of GA' v)" by blast
      then show "rp (point_of GA v) (index + Suc k) = Inr (point_of GA' v)"
        by (simp add: same p(1))
    qed
    moreover have "has GA edgeGraphics \<longrightarrow>
        (\<forall>e\<in>set (snd (ccs ! k)).
           mapE (\<lambda>bend. rp bend (index + Suc k)) (GA_bends GA e) = Inr (GA_bends GA' e))"
    proof (intro impI ballI)
      fix e assume h: "has GA edgeGraphics" and e: "e \<in> set (snd (ccs ! k))"
      with k have "e \<in> set (concat (map snd ccs))" by auto
      with disje have "e \<notin> set (snd cc)" by blast
      then have same: "GA_bends GA1 e = GA_bends GA e" by (rule p(4))
      from IH e h h1
      have "mapE (\<lambda>bend. rp bend (i1 + k)) (GA_bends GA1 e) = Inr (GA_bends GA' e)" by blast
      then show "mapE (\<lambda>bend. rp bend (index + Suc k)) (GA_bends GA e) = Inr (GA_bends GA' e)"
        by (simp add: same p(1))
    qed
    ultimately show ?thesis using Suc by simp
  qed
qed

lemma transformComponents_defined:
  assumes "\<And>p j. j < length ccs \<Longrightarrow> \<exists>q. rp p (index + j) = Inr q"
  shows "\<exists>GA'. foldE (transformComponent rp) ccs (GA, index) = Inr (GA', index + length ccs)"
  using assms
proof (induction ccs arbitrary: GA index)
  case Nil
  show ?case by simp
next
  case (Cons cc ccs)
  have "\<And>p. \<exists>q. rp p index = Inr q" using Cons.prems [of 0] by simp
  with transformComponent_defined [of rp index cc GA] obtain GA1 where
    c: "transformComponent rp cc (GA, index) = Inr (GA1, Suc index)" by blast
  have "\<And>p j. j < length ccs \<Longrightarrow> \<exists>q. rp p (Suc index + j) = Inr q"
    using Cons.prems [of "Suc _"] by simp
  from Cons.IH [OF this, of GA1] c show ?case by simp
qed

lemma applyTransform_Inr:
  "applyTransform rp ccs GA = Inr GA' \<longleftrightarrow>
     (\<exists>index. foldE (transformComponent rp) ccs (GA, 0) = Inr (GA', index))"
  by (auto simp: applyTransform_def bindE_eq_Inr)

lemma processComponent_lengths:
  assumes "processComponent atn CH border cc (GA, box, oldOffset, rotation) =
             Inr (GA', box', oldOffset', rotation')"
  shows "length box' = Suc (length box) \<and> length oldOffset' = Suc (length oldOffset) \<and>
         length rotation' = Suc (length rotation)"
  using assms unfolding processComponent_Inr by auto

lemma measureComponents_lengths_aux:
  assumes "foldE (processComponent atn CH border) ccs (GA, box, oldOffset, rotation) =
             Inr (GA', box', oldOffset', rotation')"
  shows "length box' = length box + length ccs \<and>
         length oldOffset' = length oldOffset + length ccs \<and>
         length rotation' = length rotation + length ccs"
  using assms
proof (induction ccs arbitrary: GA box oldOffset rotation)
  case Nil
  then show ?case by simp
next
  case (Cons cc ccs)
  from Cons.prems obtain s1 where
    "processComponent atn CH border cc (GA, box, oldOffset, rotation) = Inr s1"
    and "foldE (processComponent atn CH border) ccs s1 = Inr (GA', box', oldOffset', rotation')"
    by (auto split: sum.splits)
  then obtain GA1 b1 o1 r1 where
    c: "processComponent atn CH border cc (GA, box, oldOffset, rotation) = Inr (GA1, b1, o1, r1)"
    and rest: "foldE (processComponent atn CH border) ccs (GA1, b1, o1, r1) =
      Inr (GA', box', oldOffset', rotation')"
    by (cases s1) auto
  from Cons.IH [OF rest] processComponent_lengths [OF c] show ?case by simp
qed

lemma measureComponents_lengths:
  assumes "measureComponents atn CH border ccs GA = Inr (GA', box, oldOffset, rotation)"
  shows "length box = length ccs \<and> length oldOffset = length ccs \<and> length rotation = length ccs"
  using measureComponents_lengths_aux [OF assms [unfolded measureComponents_def]] by simp

lemma rotatePoint_placed:
  assumes "libm_atan2 atn"
    and "index < length rotation" "index < length offset" "index < length oldOffset"
  shows "rotatePoint atn rotation offset oldOffset p index =
     Inr (placed (rotation ! index) (offset ! index) (oldOffset ! index) p)"
  using assms by (simp add: rotatePoint_Inr placed_def)

lemma mapE_total:
  assumes "\<And>x. f x = Inr (g x)"
  shows "mapE f xs = Inr (map g xs)"
  by (induction xs) (simp_all add: assms)

subsection \<open>Angles on the axes\<close>

lemma atan2_axis_y:
  assumes "libm_atan2 atn" and "y \<noteq> 0"
  shows "atn y 0 = (if 0 < y then pi / 2 else - (pi / 2))"
proof -
  have "atn y 0 \<in> set (atan2_results y 0)" using assms(1) by (simp add: libm_atan2_def)
  then show ?thesis using assms(2) by (auto simp: atan2_results_def split: if_splits)
qed

lemma atan2_axis_x:
  assumes "libm_atan2 atn"
  shows "(0 < x \<longrightarrow> atn 0 x = 0) \<and> (x < 0 \<longrightarrow> atn 0 x = pi \<or> atn 0 x = - pi)"
proof -
  have "atn 0 x \<in> set (atan2_results 0 x)" using assms(1) by (simp add: libm_atan2_def)
  then show ?thesis by (auto simp: atan2_results_def split: if_splits)
qed

lemma atan2_origin:
  assumes "libm_atan2 atn"
  shows "atn 0 0 = 0 \<or> atn 0 0 = pi \<or> atn 0 0 = - pi"
proof -
  have "atn 0 0 \<in> set (atan2_results 0 0)" using assms(1) by (simp add: libm_atan2_def)
  then show ?thesis by (auto simp: atan2_results_def)
qed

lemma atan2ex_values:
  "atan2ex atn y x =
     (if y = 0 then (if 0 \<le> x then 0 else pi)
      else if x = 0 then (if 0 \<le> y then 0.5 * pi else 1.5 * pi)
      else atn y x)"
  by (simp add: atan2ex_def Let_def)

subsection \<open>Longest paths in the constraint graph\<close>

lemma set_incoming: "set (incoming es v) = {(u, w, len). (u, w, len) \<in> set es \<and> w = v}"
  by (auto simp: incoming_def)

lemma ready_iff: "ready es processed v \<longleftrightarrow> preds es v \<subseteq> set processed"
  by (auto simp: ready_def list_all_iff set_incoming preds_def)

lemma coordinate_cong:
  assumes "\<And>u. u \<in> preds es v \<Longrightarrow> p u = q u"
  shows "coordinate es p v = coordinate es q v"
proof -
  have "map (\<lambda>(u, w, len). p u + len) (incoming es v) = map (\<lambda>(u, w, len). q u + len) (incoming es v)"
  proof (rule map_cong [OF refl])
    fix e assume "e \<in> set (incoming es v)"
    then obtain u len where e: "e = (u, v, len)" and "(u, v, len) \<in> set es"
      by (auto simp: set_incoming)
    then have "u \<in> preds es v" by (auto simp: preds_def)
    from assms [OF this] e
    show "(case e of (u, w, len) \<Rightarrow> p u + len) = (case e of (u, w, len) \<Rightarrow> q u + len)"
      by simp
  qed
  then show ?thesis by (simp only: coordinate_def)
qed

lemma coordinate_Max:
  "coordinate es pos v =
     (if incoming es v = [] then 0
      else Max {pos u + len | u len. (u, v, len) \<in> set es})"
proof (cases "incoming es v")
  case Nil
  then show ?thesis by (simp add: coordinate_def)
next
  case (Cons e rest)
  let ?xs = "map (\<lambda>(u, w, len). pos u + len) (incoming es v)"
  have ne: "?xs \<noteq> []" using Cons by simp
  then obtain c cs where xs: "?xs = c # cs" by (cases ?xs) auto
  have "coordinate es pos v = fold max cs c" by (simp add: coordinate_def xs)
  also have "\<dots> = Max (set (c # cs))" by (rule Max.set_eq_fold [symmetric])
  also have "set (c # cs) = {pos u + len | u len. (u, v, len) \<in> set es}"
    unfolding xs [symmetric] by (force simp: set_incoming image_iff)
  finally show ?thesis using Cons by simp
qed

lemma coordinate_ge:
  assumes "(u, v, len) \<in> set es"
  shows "pos u + len \<le> coordinate es pos v"
proof -
  from assms have "(u, v, len) \<in> set (incoming es v)" by (simp add: set_incoming)
  then have ne: "incoming es v \<noteq> []" by auto
  have fin: "finite {pos u + len | u len. (u, v, len) \<in> set es}"
  proof -
    have "{pos u + len | u len. (u, v, len) \<in> set es}
        \<subseteq> (\<lambda>(u, w, len). pos u + len) ` set es" by force
    then show ?thesis by (rule finite_subset) simp
  qed
  have "pos u + len \<in> {pos u + len | u len. (u, v, len) \<in> set es}" using assms by blast
  from Max_ge [OF fin this] ne show ?thesis by (simp add: coordinate_Max)
qed

lemma coordinate_le:
  assumes "incoming es v = [] \<Longrightarrow> 0 \<le> b"
    and "\<And>u len. (u, v, len) \<in> set es \<Longrightarrow> pos u + len \<le> b"
  shows "coordinate es pos v \<le> b"
proof (cases "incoming es v = []")
  case True
  with assms(1) show ?thesis by (simp add: coordinate_Max)
next
  case False
  have fin: "finite {pos u + len | u len. (u, v, len) \<in> set es}"
  proof -
    have "{pos u + len | u len. (u, v, len) \<in> set es}
        \<subseteq> (\<lambda>(u, w, len). pos u + len) ` set es" by force
    then show ?thesis by (rule finite_subset) simp
  qed
  from False obtain e where "e \<in> set (incoming es v)" by (cases "incoming es v") auto
  then have ne: "{pos u + len | u len. (u, v, len) \<in> set es} \<noteq> {}"
    by (auto simp: set_incoming)
  have "Max {pos u + len | u len. (u, v, len) \<in> set es} \<le> b"
    using fin ne assms(2) by (subst Max_le_iff) auto
  with False show ?thesis by (simp add: coordinate_Max)
qed

lemma finite_edge_rel: "finite (edge_rel es)"
proof -
  have "edge_rel es \<subseteq> (\<lambda>(u, v, len). (u, v)) ` set es"
    by (force simp: edge_rel_def)
  then show ?thesis by (rule finite_subset) simp
qed

lemma preds_edge_rel: "u \<in> preds es v \<longleftrightarrow> (u, v) \<in> edge_rel es"
  by (simp add: preds_def edge_rel_def)

lemma exists_ready:
  assumes ac: "acyclic (edge_rel es)"
    and src: "Domain (edge_rel es) \<subseteq> set processed \<union> set remaining"
    and ne: "remaining \<noteq> []"
  shows "\<exists>v. find (ready es processed) remaining = Some v \<and> v \<in> set remaining \<and>
             ready es processed v"
proof -
  from finite_acyclic_wf [OF finite_edge_rel ac] have wf: "wf (edge_rel es)" .
  from ne obtain x where "x \<in> set remaining" by (cases remaining) auto
  from wfE_min [OF wf this] obtain z where z: "z \<in> set remaining"
    and min: "\<And>y. (y, z) \<in> edge_rel es \<Longrightarrow> y \<notin> set remaining"
    by blast
  have "ready es processed z"
    unfolding ready_iff
  proof
    fix u assume "u \<in> preds es z"
    then have e: "(u, z) \<in> edge_rel es" by (simp add: preds_edge_rel)
    from e src have "u \<in> set processed \<union> set remaining" by auto
    with min [OF e] show "u \<in> set processed" by simp
  qed
  with z have "find (ready es processed) remaining \<noteq> None"
    by (auto simp: find_None_iff)
  then obtain v where v: "find (ready es processed) remaining = Some v" by auto
  then have "v \<in> set remaining \<and> ready es processed v"
    by (auto simp: find_Some_iff)
  with v show ?thesis by blast
qed

lemma topo_sorted_snoc:
  assumes "topo_sorted es order" and "preds es v \<subseteq> set order"
  shows "topo_sorted es (order @ [v])"
  unfolding topo_sorted_def
proof (intro allI impI)
  fix i assume i: "i < length (order @ [v])"
  show "preds es ((order @ [v]) ! i) \<subseteq> set (take i (order @ [v]))"
  proof (cases "i < length order")
    case True
    with assms(1) show ?thesis by (simp add: topo_sorted_def nth_append)
  next
    case False
    with i have "i = length order" by simp
    with assms(2) show ?thesis by simp
  qed
qed

lemma topologicalOrder_succeeds:
  assumes "acyclic (edge_rel es)"
    and "Domain (edge_rel es) \<subseteq> set processed \<union> set remaining"
    and "topo_sorted es processed" and "distinct processed"
    and "set processed \<inter> set remaining = {}"
  shows "\<exists>order. topologicalOrder es processed remaining = Some order \<and>
           topo_sorted es order \<and> distinct order \<and>
           set order = set processed \<union> set remaining"
  using assms
proof (induction es processed remaining rule: topologicalOrder.induct)
  case (1 es processed remaining)
  show ?case
  proof (cases "remaining = []")
    case True
    with "1.prems" show ?thesis by (simp add: topologicalOrder.simps)
  next
    case False
    from exists_ready [OF "1.prems"(1,2) False] obtain v where
      f: "find (ready es processed) remaining = Some v" and v: "v \<in> set remaining"
      and r: "ready es processed v"
      by blast
    have src: "Domain (edge_rel es) \<subseteq> set (processed @ [v]) \<union> set (removeAll v remaining)"
      using "1.prems"(2) by auto
    have ts: "topo_sorted es (processed @ [v])"
      using "1.prems"(3) r by (auto intro: topo_sorted_snoc simp: ready_iff)
    have d: "distinct (processed @ [v])"
      using "1.prems"(4,5) v by auto
    have dj: "set (processed @ [v]) \<inter> set (removeAll v remaining) = {}"
      using "1.prems"(5) by auto
    from "1.IH" [OF False f "1.prems"(1) src ts d dj] obtain order where
      o: "topologicalOrder es (processed @ [v]) (removeAll v remaining) = Some order"
      and p: "topo_sorted es order" "distinct order"
        "set order = set (processed @ [v]) \<union> set (removeAll v remaining)"
      by blast
    have "topologicalOrder es processed remaining = Some order"
      using False f o by (subst topologicalOrder.simps) simp
    moreover have "set order = set processed \<union> set remaining"
      using p(3) v by auto
    ultimately show ?thesis using p(1,2) by blast
  qed
qed

lemma topo_induct:
  assumes ts: "topo_sorted es order"
    and step: "\<And>v. v \<in> set order \<Longrightarrow> (\<And>u. u \<in> preds es v \<Longrightarrow> P u) \<Longrightarrow> P v"
  shows "\<forall>v\<in>set order. P v"
proof -
  have "i \<le> length order \<Longrightarrow> \<forall>v\<in>set (take i order). P v" for i
  proof (induction i)
    case 0
    show ?case by simp
  next
    case (Suc i)
    then have i: "i < length order" by simp
    with Suc have IH: "\<forall>v\<in>set (take i order). P v" by simp
    have "P (order ! i)"
    proof (rule step)
      show "order ! i \<in> set order" using i by simp
    next
      fix u assume "u \<in> preds es (order ! i)"
      with ts i have "u \<in> set (take i order)" by (auto simp: topo_sorted_def)
      with IH show "P u" by blast
    qed
    with IH i show ?case by (simp add: take_Suc_conv_app_nth)
  qed
  from this [of "length order"] show ?thesis by simp
qed

lemma fold_relax_fixed:
  assumes "topo_sorted es order" and "distinct order"
  shows "\<forall>v\<in>set order. fold (relax es) order pos v = coordinate es (fold (relax es) order pos) v"
  using assms
proof (induction order rule: rev_induct)
  case Nil
  show ?case by simp
next
  case (snoc x xs)
  let ?p = "fold (relax es) xs pos"
  let ?p' = "fold (relax es) (xs @ [x]) pos"
  have p': "?p' = ?p(x := coordinate es ?p x)" by (simp add: relax_def)
  from snoc.prems(2) have d: "distinct xs" and x: "x \<notin> set xs" by simp_all
  have ts: "topo_sorted es xs"
    unfolding topo_sorted_def
  proof (intro allI impI)
    fix i assume i: "i < length xs"
    with snoc.prems(1) have "preds es ((xs @ [x]) ! i) \<subseteq> set (take i (xs @ [x]))"
      by (simp add: topo_sorted_def)
    with i show "preds es (xs ! i) \<subseteq> set (take i xs)" by (simp add: nth_append)
  qed
  have px: "preds es x \<subseteq> set xs"
    using snoc.prems(1) [unfolded topo_sorted_def, rule_format, of "length xs"] by simp
  have pin: "\<And>v. v \<in> set xs \<Longrightarrow> preds es v \<subseteq> set xs"
  proof -
    fix v assume "v \<in> set xs"
    then obtain i where i: "i < length xs" "v = xs ! i" by (auto simp: in_set_conv_nth)
    with ts have "preds es v \<subseteq> set (take i xs)" by (simp add: topo_sorted_def)
    also have "\<dots> \<subseteq> set xs" by (rule set_take_subset)
    finally show "preds es v \<subseteq> set xs" .
  qed
  have same: "\<And>v. preds es v \<subseteq> set xs \<Longrightarrow> coordinate es ?p' v = coordinate es ?p v"
  proof -
    fix v assume s: "preds es v \<subseteq> set xs"
    show "coordinate es ?p' v = coordinate es ?p v"
    proof (rule coordinate_cong)
      fix u assume "u \<in> preds es v"
      with s x have "u \<noteq> x" by blast
      then show "?p' u = ?p u" by (simp add: relax_def)
    qed
  qed
  note IH = snoc.IH [OF ts d]
  show ?case
  proof
    fix v assume "v \<in> set (xs @ [x])"
    then consider "v = x" | "v \<in> set xs" by auto
    then show "?p' v = coordinate es ?p' v"
    proof cases
      case 1
      have "?p' x = coordinate es ?p x" by (subst p') simp
      with same [OF px] 1 show ?thesis by (simp only:)
    next
      case 2
      with x have "v \<noteq> x" by blast
      then have a: "?p' v = ?p v" by (subst p') simp
      have b: "coordinate es ?p' v = coordinate es ?p v" by (rule same [OF pin [OF 2]])
      from IH 2 have c: "?p v = coordinate es ?p v" by blast
      from a b c show ?thesis by (simp only:)
    qed
  qed
qed

lemma exPath_acyclic: "acyclic (edge_rel (cg_edges exPath))"
proof (rule acyclicI_order [where f = "\<lambda>v. (10::nat) - v"])
  fix a b assume "(a, b) \<in> edge_rel (cg_edges exPath)"
  then show "10 - b < 10 - a" by (auto simp: edge_rel_def exPath_def)
qed

lemma measureComponents_has:
  assumes "measureComponents atn CH border ccs GA = Inr (GA', box, oldOffset, rotation)"
  shows "has GA' a = has GA a"
proof -
  let ?P = "\<lambda>s. case s of (G, b, old, rot) \<Rightarrow>
    has G a = has GA a" 
  have "?P (GA', box, oldOffset, rotation)"
  proof (rule foldE_invariant [where P = ?P and s = "(GA, [], [], [])",
        OF assms [unfolded measureComponents_def]])
    show "?P (GA, [], [], [])" by simp
  next
    fix cc :: component and s s' :: measures
    assume P: "?P s" and step: "processComponent atn CH border cc s = Inr s'"
    obtain G b old rot where s: "s = (G, b, old, rot)" by (cases s)
    from step [unfolded s processComponent_Inr] obtain angle off bx
      where "s' = (centered (fst (average G cc)) (snd (average G cc)) cc G,
             b @ [bx], old @ [off], rot @ [angle])"
      by blast
    with P s show "?P s'" by simp
  qed
  then show ?thesis by simp
qed

subsection \<open>A lower bound for the boxes\<close>

lemma measureComponents_boxes:
  assumes "foldE (processComponent atn CH border) ccs (GA, box0, old0, rot0) = Inr (GA', box, old, rot)"
    and "\<forall>h\<in>set (componentHulls CH ccs GA). Q h"
    and "\<forall>bx\<in>set box0. P bx"
    and step: "\<And>hullP angle off bx.
           measureHull atn CH border hullP = Inr (angle, off, bx) \<Longrightarrow> Q hullP \<Longrightarrow> P bx"
  shows "\<forall>bx\<in>set box. P bx"
  using assms(1-3)
proof (induction ccs arbitrary: GA box0 old0 rot0)
  case Nil
  then show ?case by simp
next
  case (Cons cc ccs)
  let ?hull = "CH_call CH (map (shiftPoint (fst (average GA cc)) (snd (average GA cc)))
    (collectPoints GA cc))"
  let ?GA1 = "centered (fst (average GA cc)) (snd (average GA cc)) cc GA"
  from Cons.prems(1) obtain s1 where
    s1: "processComponent atn CH border cc (GA, box0, old0, rot0) = Inr s1"
    and rest: "foldE (processComponent atn CH border) ccs s1 = Inr (GA', box, old, rot)"
    by (auto split: sum.splits)
  from s1 [unfolded processComponent_Inr] obtain angle off bx where
    m: "measureHull atn CH border ?hull = Inr (angle, off, bx)"
    and s1eq: "s1 = (?GA1, box0 @ [bx], old0 @ [off], rot0 @ [angle])"
    by blast
  from Cons.prems(2) have q: "Q ?hull"
    and qs: "\<forall>h\<in>set (componentHulls CH ccs ?GA1). Q h"
    by simp_all
  from step [OF m q] Cons.prems(3)
  have b: "\<forall>bx\<in>set (box0 @ [bx]). P bx"
    by simp
  from Cons.IH [OF rest [unfolded s1eq] qs b] show ?case .
qed

lemma exGA_centered_single:
  "map (shiftPoint (fst (average GA ([v], []))) (snd (average GA ([v], []))))
     (collectPoints GA ([v], [])) = [\<lparr>m_x = 0, m_y = 0\<rparr>]"
  by (simp add: average_eq collectPoints_def shiftPoint_def)

lemma exGA_hulls: "componentHulls exCH exCCs exGA = [exCentered, [\<lparr>m_x = 0, m_y = 0\<rparr>]]"
proof -
  have "componentHulls exCH exCCs exGA =
      [CH_call exCH exCentered,
       CH_call exCH (map (shiftPoint
           (fst (average (centered (fst (average exGA exCC1)) (snd (average exGA exCC1)) exCC1 exGA) exCC2))
           (snd (average (centered (fst (average exGA exCC1)) (snd (average exGA exCC1)) exCC1 exGA) exCC2)))
         (collectPoints (centered (fst (average exGA exCC1)) (snd (average exGA exCC1)) exCC1 exGA) exCC2))]"
    by (simp only: exCCs_def componentHulls.simps exGA_centered_points)
  then show ?thesis
    by (simp add: exCC2_def exGA_centered_single exCH_def)
qed

lemma exGA_in_range:
  "\<forall>h\<in>set (componentHulls exCH exCCs exGA).
     boxInRange 30 (best_width (degenerate h (calipers exCH h)))
       (best_height (degenerate h (calipers exCH h)))"
proof -
  have "length exCentered = 4" by (simp add: exCentered_def)
  then show ?thesis
    by (simp add: exGA_hulls exCentered_calipers degenerate_def boxInRange_def
        truncate_toward_zero_def in_int_range_small)
qed

subsection \<open>The first loop on a wide and on a large component\<close>

lemma recordedBoxes_single:
  assumes "CH_call CH (map (shiftPoint (fst (average GA cc)) (snd (average GA cc)))
             (collectPoints GA cc)) = hullP"
    and "hullP \<noteq> []"
    and "orient atn (degenerate hullP (calipers CH hullP)) = (angle, w, h)"
  shows "recordedBoxes atn CH border [cc] GA = Some [makeBox border w h]"
proof -
  from measureHull_defined [OF assms(2,3) refl, of border] obtain off where
    "measureHull atn CH border hullP = Inr (angle, off, makeBox border w h)"
    by blast
  then have "processComponent atn CH border cc (GA, [], [], []) =
      Inr (centered (fst (average GA cc)) (snd (average GA cc)) cc GA,
           [makeBox border w h], [off], [angle])"
    by (simp add: processComponent_Inr assms(1))
  then show ?thesis
    by (simp add: recordedBoxes_def measureComponents_def)
qed

lemma exWide_points:
  "CH_call exCH (map (shiftPoint (fst (average exWideGA exWideCC)) (snd (average exWideGA exWideCC)))
     (collectPoints exWideGA exWideCC)) = exWide"
proof -
  have c: "collectPoints exWideGA exWideCC =
      [\<lparr>m_x = 0, m_y = 0\<rparr>, \<lparr>m_x = 10000000000, m_y = 0\<rparr>]"
    by (simp add: collectPoints_def exWideGA_def has_def exWideCC_def)
  have a: "average exWideGA exWideCC = (5000000000, 0)"
    by (simp add: average_eq c)
  show ?thesis
    by (simp add: a c shiftPoint_def exWide_def exCH_def)
qed

lemma exWide_calipers:
  "calipers exCH exWide =
     \<lparr>best_area = 100000000000000000000, best_normal = \<lparr>m_x = 0, m_y = - 10000000000\<rparr>,
      best_width = 100000000000000000000, best_height = 1\<rparr>"
proof -
  have "candidates exCH exWide =
     [\<lparr>best_area = 100000000000000000000, best_normal = \<lparr>m_x = 0, m_y = 10000000000\<rparr>,
       best_width = 100000000000000000000, best_height = 1\<rparr>,
      \<lparr>best_area = 100000000000000000000, best_normal = \<lparr>m_x = 0, m_y = - 10000000000\<rparr>,
       best_width = 100000000000000000000, best_height = 1\<rparr>]"
    by (simp add: candidates_def hullEdges_def exWide_def candidate_def exCH_def maxDist_def
        leftRight_def updateMax_def)
  then show ?thesis
    by (simp add: calipers_def updateBest_def initialBest_def DBL_MAX_def)
qed

lemma exWide_makeBox:
  "makeBox 30 100000000000000000000 1 = \<lparr>m_x = - 2147483618, m_y = 31\<rparr>"
  by (simp add: makeBox_def static_cast_int_def add_int_def truncate_toward_zero_def
      in_int_range_def INT_MIN_def INT_MAX_def)

lemma exWide_boxes:
  "recordedBoxes atan2_pz exCH 30 [exWideCC] exWideGA = Some [\<lparr>m_x = - 2147483618, m_y = 31\<rparr>]"
proof -
  have n: "exWide \<noteq> []" by (simp add: exWide_def)
  have "length exWide = 2" by (simp add: exWide_def)
  then have o: "orient atan2_pz (degenerate exWide (calipers exCH exWide)) =
      (rotationAngle atan2_pz \<lparr>m_x = 0, m_y = - 10000000000\<rparr>, 100000000000000000000, 1)"
    by (simp add: exWide_calipers orient_def degenerate_def)
  show ?thesis
    using recordedBoxes_single [OF exWide_points n o, of 30] by (simp only: exWide_makeBox)
qed

lemma exBig_points:
  "CH_call exCH (map (shiftPoint (fst (average exBigGA exBigCC)) (snd (average exBigGA exBigCC)))
     (collectPoints exBigGA exBigCC)) = exBig"
proof -
  have c: "collectPoints exBigGA exBigCC = exBig"
    by (simp add: collectPoints_def exBigGA_def has_def exBigCC_def exBig_def)
  have a: "average exBigGA exBigCC = (0, 0)"
    by (simp add: average_eq c exBig_def)
  show ?thesis
    by (simp add: a c shiftPoint_def exBig_def exCH_def)
qed

lemma exBig_candidates:
  "map best_area (candidates exCH exBig) = [2 ^ 1064, 2 ^ 1064, 2 ^ 1064, 2 ^ 1064]"
  by (simp add: candidates_def hullEdges_def exBig_def candidate_def exCH_def maxDist_def
      leftRight_def updateMax_def)

lemma fold_updateBest_none:
  "\<forall>c\<in>set cs. \<not> best_area c \<le> best_area b \<Longrightarrow> fold updateBest cs b = b"
  by (induction cs) (simp_all add: updateBest_def)

lemma exBig_calipers: "calipers exCH exBig = initialBest"
proof -
  have "\<forall>a\<in>set (map best_area (candidates exCH exBig)). \<not> a \<le> DBL_MAX"
    by (simp only: exBig_candidates) (simp add: DBL_MAX_def)
  then have "\<forall>c\<in>set (candidates exCH exBig). \<not> best_area c \<le> best_area initialBest"
    by (simp add: initialBest_def)
  then show ?thesis
    unfolding calipers_def by (rule fold_updateBest_none)
qed

lemma exBig_boxes:
  "recordedBoxes atan2_pz exCH 30 [exBigCC] exBigGA = Some [\<lparr>m_x = 30, m_y = 30\<rparr>]"
proof -
  have n: "exBig \<noteq> []" by (simp add: exBig_def)
  have "length exBig = 4" by (simp add: exBig_def)
  then have o: "orient atan2_pz (degenerate exBig (calipers exCH exBig)) =
      (rotationAngle atan2_pz \<lparr>m_x = 0, m_y = 0\<rparr>, 0, 0)"
    by (simp add: exBig_calipers orient_def degenerate_def initialBest_def)
  have b: "makeBox 30 0 0 = \<lparr>m_x = 30, m_y = 30\<rparr>"
    by (simp add: makeBox_in_range boxInRange_def truncate_toward_zero_def in_int_range_small)
  show ?thesis
    using recordedBoxes_single [OF exBig_points n o, of 30] by (simp only: b)
qed

subsection \<open>The two phases of call on the small instance\<close>

lemma exS_layout_first:
  "layoutComponent exS (\<lambda>GA. GA) exCCs 0 (exGA, []) = Inr (exGA, [SecondaryLayoutCalled 0])"
  by (simp add: layoutComponent_def exS_def exCCs_def exCC1_def exCC2_def copyNodeIn_def
      copyEdgeIn_def copyNodeBack_def copyEdgeBack_def has_def exGA_def Let_def fun_eq_iff)

lemma exS_layout_second:
  "layoutComponent exS (\<lambda>GA. GA) exCCs (Suc 0) (exGA, [SecondaryLayoutCalled 0]) =
     Inr (exGA, [SecondaryLayoutCalled 0, SecondaryLayoutCalled (Suc 0)])"
  by (simp add: layoutComponent_def exS_def exCCs_def exCC1_def exCC2_def copyNodeIn_def
      copyEdgeIn_def copyNodeBack_def copyEdgeBack_def has_def exGA_def Let_def fun_eq_iff)

lemma reassembleDrawings_defined:
  assumes lib: "libm_atan2 atn"
    and m: "measureComponents atn CH (m_border L) ccs GA = Inr (GA1, box, oldOffset, rotation)"
    and len: "length (m_packer L box (replicate (length box) \<lparr>m_x = 0, m_y = 0\<rparr>)
                (m_targetRatio L)) = length box"
  shows "\<exists>GA'. reassembleDrawings atn L CH GA ccs = Inr (GA', [PackerCalled])"
proof -
  let ?offset = "m_packer L box (replicate (length box) \<lparr>m_x = 0, m_y = 0\<rparr>) (m_targetRatio L)"
  let ?rp = "rotatePoint atn rotation ?offset oldOffset"
  from measureComponents_lengths [OF m] len
  have "\<And>p j. j < length ccs \<Longrightarrow> \<exists>q. ?rp p (0 + j) = Inr q"
    by (simp add: rotatePoint_placed [OF lib])
  from transformComponents_defined [of ccs ?rp 0 GA1, OF this] obtain GA' where
    "foldE (transformComponent ?rp) ccs (GA1, 0) = Inr (GA', 0 + length ccs)"
    by blast
  then have "applyTransform ?rp ccs GA1 = Inr GA'"
    unfolding applyTransform_Inr by blast
  with m have "reassembleDrawings atn L CH GA ccs = Inr (GA', [PackerCalled])"
    by (simp add: reassembleDrawings_def Let_def)
  then show ?thesis by blast
qed

lemma call_example:
  "\<exists>GA'. call atan2_pz ((ComponentSplitterLayout_new exPacker)\<lparr>m_secondaryLayout := Some (\<lambda>GA. GA)\<rparr>)
      exCH exS exGA =
     Inr (GA', [SecondaryLayoutCalled 0, SecondaryLayoutCalled 1, ReassembleDrawingsCalled,
                PackerCalled])"
proof -
  let ?L = "(ComponentSplitterLayout_new exPacker)\<lparr>m_secondaryLayout := Some (\<lambda>GA. GA)\<rparr>"
  have ccs: "CCsInfo_of exS (constGraph exGA) = exCCs"
    by (simp add: exS_def exGA_def)
  have n: "numberOfCCs exCCs = 2" by (simp add: numberOfCCs_def exCCs_def)
  have upt: "[0..<2] = [0, Suc 0]" by (simp add: upt_rec)
  have loop: "foldE (layoutComponent exS (\<lambda>GA. GA) exCCs) [0..<2] (exGA, []) =
      Inr (exGA, [SecondaryLayoutCalled 0, SecondaryLayoutCalled (Suc 0)])"
    by (simp only: upt foldE.simps exS_layout_first exS_layout_second sum.case)
  have L: "m_border ?L = 30" "m_packer ?L = exPacker"
    by (simp_all add: ComponentSplitterLayout_new_def)
  from exGA_measure obtain GA1 oldOffset where
    m: "measureComponents atan2_pz exCH (m_border ?L) exCCs exGA =
      Inr (GA1, [\<lparr>m_x = 32, m_y = 31\<rparr>, \<lparr>m_x = 31, m_y = 31\<rparr>], oldOffset,
           [rotationAngle atan2_pz \<lparr>m_x = 1, m_y = 0\<rparr> + 0.5 * pi, rotationAngle atan2_pz \<lparr>m_x = 1, m_y = 1\<rparr>])"
    unfolding L by blast
  have "length (m_packer ?L [\<lparr>m_x = 32, m_y = 31\<rparr>, \<lparr>m_x = 31, m_y = 31\<rparr>]
      (replicate (length [\<lparr>m_x = 32, m_y = 31\<rparr>, \<lparr>m_x = 31, m_y = 31 :: int\<rparr>]) \<lparr>m_x = 0, m_y = 0\<rparr>)
      (m_targetRatio ?L)) = length [\<lparr>m_x = 32, m_y = 31\<rparr>, \<lparr>m_x = 31, m_y = 31 :: int\<rparr>]"
    by (simp add: L exPacker_def)
  from reassembleDrawings_defined [OF libm_atan2_pz m this] obtain GA' where
    r': "reassembleDrawings atan2_pz ?L exCH exGA exCCs = Inr (GA', [PackerCalled])"
    by blast
  show ?thesis
    by (rule exI [of _ GA']) (simp add: call_def ccs n loop r' Let_def)
qed

section \<open>The claims\<close>

text \<open>
  Claim C1. On a constraint graph that is acyclic and whose edges join nodes of the
  graph, \<open>constructiveHeuristics\<close> returns positions (it does not report a cycle);
  every edge \<open>(u, v, len)\<close> has \<open>pos v - pos u \<ge> len\<close>; for every node \<open>pos v\<close> is
  the maximum of \<open>pos u + len\<close> over the incoming edges, or 0 without incoming edge;
  these equations have no other solution; and every assignment that satisfies all edges
  and is not negative on the nodes without incoming edge is at least \<open>pos\<close> at every
  node.
\<close>

theorem constructive_minimal_feasible:
  assumes dag: "acyclic (edge_rel (cg_edges D))"
    and wf: "\<forall>(u, v, len)\<in>set (cg_edges D). u \<in> set (cg_nodes D) \<and> v \<in> set (cg_nodes D)"
  shows "\<exists>pos. constructiveHeuristics D = Inr pos \<and>
     (\<forall>(u, v, len)\<in>set (cg_edges D). len \<le> pos v - pos u) \<and>
     (\<forall>v\<in>set (cg_nodes D).
        pos v = coordinate (cg_edges D) pos v \<and>
        coordinate (cg_edges D) pos v =
          (if incoming (cg_edges D) v = [] then 0
           else Max {pos u + len | u len. (u, v, len) \<in> set (cg_edges D)})) \<and>
     (\<forall>q. (\<forall>v\<in>set (cg_nodes D). q v = coordinate (cg_edges D) q v) \<longrightarrow>
          (\<forall>v\<in>set (cg_nodes D). q v = pos v)) \<and>
     (\<forall>q. (\<forall>(u, v, len)\<in>set (cg_edges D). len \<le> q v - q u) \<and>
          (\<forall>v\<in>set (cg_nodes D). incoming (cg_edges D) v = [] \<longrightarrow> 0 \<le> q v) \<longrightarrow>
          (\<forall>v\<in>set (cg_nodes D). pos v \<le> q v))"
proof -
  let ?es = "cg_edges D" and ?N = "cg_nodes D"
  have src: "Domain (edge_rel ?es) \<subseteq> set [] \<union> set ?N"
    using wf by (auto simp: edge_rel_def)
  have "topo_sorted ?es []" by (simp add: topo_sorted_def)
  from topologicalOrder_succeeds [OF dag src this] obtain order where
    o: "topologicalOrder ?es [] ?N = Some order"
    and ts: "topo_sorted ?es order" and d: "distinct order" and so: "set order = set ?N"
    by auto
  let ?pos = "fold (relax ?es) order (\<lambda>v. 0)"
  have c: "constructiveHeuristics D = Inr ?pos"
    by (simp add: constructiveHeuristics_def o)
  have fixed: "\<forall>v\<in>set ?N. ?pos v = coordinate ?es ?pos v"
    using fold_relax_fixed [OF ts d, of "\<lambda>v. 0"] so by simp
  have feasible: "\<forall>(u, v, len)\<in>set ?es. len \<le> ?pos v - ?pos u"
  proof (clarify)
    fix u v len assume e: "(u, v, len) \<in> set ?es"
    with wf have "v \<in> set ?N" by auto
    with fixed have "?pos v = coordinate ?es ?pos v" by blast
    with coordinate_ge [OF e, of ?pos] show "len \<le> ?pos v - ?pos u" by simp
  qed
  have unique: "\<forall>q. (\<forall>v\<in>set ?N. q v = coordinate ?es q v) \<longrightarrow> (\<forall>v\<in>set ?N. q v = ?pos v)"
  proof (intro allI impI)
    fix q assume q: "\<forall>v\<in>set ?N. q v = coordinate ?es q v"
    have "\<forall>v\<in>set order. q v = ?pos v"
    proof (rule topo_induct [OF ts])
      fix v assume v: "v \<in> set order" and IH: "\<And>u. u \<in> preds ?es v \<Longrightarrow> q u = ?pos u"
      from v so q have "q v = coordinate ?es q v" by blast
      also have "\<dots> = coordinate ?es ?pos v" by (rule coordinate_cong) (rule IH)
      also from v so fixed have "\<dots> = ?pos v" by simp
      finally show "q v = ?pos v" .
    qed
    with so show "\<forall>v\<in>set ?N. q v = ?pos v" by simp
  qed
  have minimal: "\<forall>q. (\<forall>(u, v, len)\<in>set ?es. len \<le> q v - q u) \<and>
          (\<forall>v\<in>set ?N. incoming ?es v = [] \<longrightarrow> 0 \<le> q v) \<longrightarrow>
          (\<forall>v\<in>set ?N. ?pos v \<le> q v)"
  proof (intro allI impI)
    fix q assume q: "(\<forall>(u, v, len)\<in>set ?es. len \<le> q v - q u) \<and>
          (\<forall>v\<in>set ?N. incoming ?es v = [] \<longrightarrow> 0 \<le> q v)"
    have "\<forall>v\<in>set order. ?pos v \<le> q v"
    proof (rule topo_induct [OF ts])
      fix v assume v: "v \<in> set order" and IH: "\<And>u. u \<in> preds ?es v \<Longrightarrow> ?pos u \<le> q u"
      have "coordinate ?es ?pos v \<le> q v"
      proof (rule coordinate_le)
        assume "incoming ?es v = []"
        with q v so show "0 \<le> q v" by blast
      next
        fix u len assume e: "(u, v, len) \<in> set ?es"
        then have "u \<in> preds ?es v" by (auto simp: preds_def)
        from IH [OF this] have "?pos u \<le> q u" .
        moreover from q e have "len \<le> q v - q u" by blast
        ultimately show "?pos u + len \<le> q v" by simp
      qed
      with v so fixed show "?pos v \<le> q v" by simp
    qed
    with so show "\<forall>v\<in>set ?N. ?pos v \<le> q v" by simp
  qed
  have maxform: "\<forall>v\<in>set ?N.
        ?pos v = coordinate ?es ?pos v \<and>
        coordinate ?es ?pos v =
          (if incoming ?es v = [] then 0
           else Max {?pos u + len | u len. (u, v, len) \<in> set ?es})"
  proof
    fix v assume "v \<in> set ?N"
    with fixed have "?pos v = coordinate ?es ?pos v" by blast
    then show "?pos v = coordinate ?es ?pos v \<and>
        coordinate ?es ?pos v =
          (if incoming ?es v = [] then 0
           else Max {?pos u + len | u len. (u, v, len) \<in> set ?es})"
      using coordinate_Max [of ?es ?pos v] by (rule conjI)
  qed
  show ?thesis
    by (rule exI [of _ ?pos]) (intro conjI c feasible maxform unique minimal)
qed

theorem constructive_minimal_feasible_witness:
  "\<exists>pos. constructiveHeuristics exPath = Inr pos \<and>
     pos 0 = 0 \<and> pos 1 = 5 \<and> pos 2 = 8 \<and> pos 3 = 10 \<and>
     5 \<le> pos 1 - pos 0 \<and> 3 \<le> pos 2 - pos 1 \<and> 2 \<le> pos 3 - pos 2 \<and>
     pos 3 \<le> 30"
proof -
  define q :: "node \<Rightarrow> int"
    where "q = (\<lambda>v. if v = 0 then 0 else if v = 1 then 5 else if v = 2 then 8 else 10)"
  define r :: "node \<Rightarrow> int" where "r = (\<lambda>v. 10 * int v)"
  have N: "set (cg_nodes exPath) = {0, 1, 2, 3}" by (auto simp: exPath_def)
  have es: "cg_edges exPath = [(0, 1, 5), (1, 2, 3), (2, 3, 2)]" by (simp add: exPath_def)
  have wf: "\<forall>(u, v, len)\<in>set (cg_edges exPath).
      u \<in> set (cg_nodes exPath) \<and> v \<in> set (cg_nodes exPath)"
    by (simp add: exPath_def)
  have qv: "q 0 = 0" "q 1 = 5" "q 2 = 8" "q 3 = 10" by (simp_all add: q_def)
  have inc: "incoming (cg_edges exPath) 0 = []"
    "incoming (cg_edges exPath) 1 = [(0, 1, 5)]"
    "incoming (cg_edges exPath) 2 = [(1, 2, 3)]"
    "incoming (cg_edges exPath) 3 = [(2, 3, 2)]"
    by (simp_all add: es incoming_def)
  have cq: "coordinate (cg_edges exPath) q 0 = 0" "coordinate (cg_edges exPath) q 1 = 5"
    "coordinate (cg_edges exPath) q 2 = 8" "coordinate (cg_edges exPath) q 3 = 10"
    by (simp_all add: coordinate_def inc qv del: One_nat_def)
  have qfix: "\<forall>v\<in>set (cg_nodes exPath). q v = coordinate (cg_edges exPath) q v"
    unfolding N by (simp add: qv cq del: One_nat_def)
  have rfeas: "(\<forall>(u, v, len)\<in>set (cg_edges exPath). len \<le> r v - r u) \<and>
      (\<forall>v\<in>set (cg_nodes exPath). incoming (cg_edges exPath) v = [] \<longrightarrow> 0 \<le> r v)"
    unfolding N by (simp add: es r_def inc del: One_nat_def)
  from constructive_minimal_feasible [OF exPath_acyclic wf] obtain pos where
    c: "constructiveHeuristics exPath = Inr pos"
    and f: "\<forall>(u, v, len)\<in>set (cg_edges exPath). len \<le> pos v - pos u"
    and u: "\<forall>q. (\<forall>v\<in>set (cg_nodes exPath). q v = coordinate (cg_edges exPath) q v) \<longrightarrow>
          (\<forall>v\<in>set (cg_nodes exPath). q v = pos v)"
    and m: "\<forall>q. (\<forall>(u, v, len)\<in>set (cg_edges exPath). len \<le> q v - q u) \<and>
          (\<forall>v\<in>set (cg_nodes exPath). incoming (cg_edges exPath) v = [] \<longrightarrow> 0 \<le> q v) \<longrightarrow>
          (\<forall>v\<in>set (cg_nodes exPath). pos v \<le> q v)"
    by (elim exE conjE) (rule that)
  from u [THEN spec, of q] qfix have "\<forall>v\<in>set (cg_nodes exPath). q v = pos v" by (rule mp)
  then have p: "pos 0 = 0" "pos 1 = 5" "pos 2 = 8" "pos 3 = 10"
    unfolding N using qv by (simp_all del: One_nat_def)
  from m [THEN spec, of r] rfeas have "\<forall>v\<in>set (cg_nodes exPath). pos v \<le> r v" by (rule mp)
  then have b: "pos 3 \<le> 30" unfolding N by (simp add: r_def)
  from f have g: "5 \<le> pos 1 - pos 0" "3 \<le> pos 2 - pos 1" "2 \<le> pos 3 - pos 2"
    unfolding es by (simp_all del: One_nat_def)
  from c p g b show ?thesis by (intro exI [of _ pos] conjI)
qed

text \<open>
  Claim C2, as the program has it. The three angle computations (the rotation angle
  of a component, the rotation of the hull points, the final point transform) use the
  value that the C library's \<open>atan2\<close> returns, whatever the input: with zero x it is
  \<open>pi / 2\<close> for positive y and \<open>- pi / 2\<close> for negative y, so that the rotation angle
  of a component is \<open>pi\<close> and \<open>2 * pi\<close> there; with zero y it is 0 for positive x, and
  \<open>pi\<close> or \<open>- pi\<close>, by the sign of the zero, for negative x; for two zeros it is 0,
  \<open>pi\<close> or \<open>- pi\<close>. The function \<open>atan2ex\<close>, which gives \<open>pi / 2\<close> and \<open>3 * pi / 2\<close>
  for zero x, and 0 and \<open>pi\<close> for zero y, is defined and not called.
\<close>

theorem angle_computations_raw:
  assumes "libm_atan2 atn"
  shows "rotationAngle atn n = - atn (m_y n) (m_x n) + 1.5 * pi \<and>
   rotateHullPoint atn angle p =
     \<lparr>m_x = cos (atn (m_y p) (m_x p) + angle) * sqrt (m_x p * m_x p + m_y p * m_y p),
      m_y = sin (atn (m_y p) (m_x p) + angle) * sqrt (m_x p * m_x p + m_y p * m_y p)\<rparr> \<and>
   rotatePoint atn rotation offset oldOffset p index =
     (if index < length rotation \<and> index < length offset \<and> index < length oldOffset
      then Inr \<lparr>m_x = cos (atn (m_y p) (m_x p) + rotation ! index)
                         * sqrt (m_x p * m_x p + m_y p * m_y p)
                       + real_of_int (m_x (offset ! index)) - m_x (oldOffset ! index),
                 m_y = sin (atn (m_y p) (m_x p) + rotation ! index)
                         * sqrt (m_x p * m_x p + m_y p * m_y p)
                       + real_of_int (m_y (offset ! index)) - m_y (oldOffset ! index)\<rparr>
      else Inl OutOfRange) \<and>
   (0 < y \<longrightarrow> atn y 0 = pi / 2 \<and> rotationAngle atn \<lparr>m_x = 0, m_y = y\<rparr> = pi) \<and>
   (y < 0 \<longrightarrow> atn y 0 = - (pi / 2) \<and> rotationAngle atn \<lparr>m_x = 0, m_y = y\<rparr> = 2 * pi) \<and>
   (0 < x \<longrightarrow> atn 0 x = 0) \<and>
   (x < 0 \<longrightarrow> atn 0 x = pi \<or> atn 0 x = - pi) \<and>
   (atn 0 0 = 0 \<or> atn 0 0 = pi \<or> atn 0 0 = - pi) \<and>
   atan2ex atn y x =
     (if y = 0 then (if 0 \<le> x then 0 else pi)
      else if x = 0 then (if 0 \<le> y then 0.5 * pi else 1.5 * pi)
      else atn y x)"
proof -
  have sites: "rotationAngle atn n = - atn (m_y n) (m_x n) + 1.5 * pi \<and>
   rotateHullPoint atn angle p =
     \<lparr>m_x = cos (atn (m_y p) (m_x p) + angle) * sqrt (m_x p * m_x p + m_y p * m_y p),
      m_y = sin (atn (m_y p) (m_x p) + angle) * sqrt (m_x p * m_x p + m_y p * m_y p)\<rparr> \<and>
   rotatePoint atn rotation offset oldOffset p index =
     (if index < length rotation \<and> index < length offset \<and> index < length oldOffset
      then Inr \<lparr>m_x = cos (atn (m_y p) (m_x p) + rotation ! index)
                         * sqrt (m_x p * m_x p + m_y p * m_y p)
                       + real_of_int (m_x (offset ! index)) - m_x (oldOffset ! index),
                 m_y = sin (atn (m_y p) (m_x p) + rotation ! index)
                         * sqrt (m_x p * m_x p + m_y p * m_y p)
                       + real_of_int (m_y (offset ! index)) - m_y (oldOffset ! index)\<rparr>
      else Inl OutOfRange)"
    by (simp add: rotationAngle_def rotateHullPoint_def rotatePoint_def Let_def)
  have up: "0 < y \<longrightarrow> atn y 0 = pi / 2 \<and> rotationAngle atn \<lparr>m_x = 0, m_y = y\<rparr> = pi"
    using atan2_axis_y [OF assms, of y] by (simp add: rotationAngle_def)
  have down: "y < 0 \<longrightarrow> atn y 0 = - (pi / 2) \<and> rotationAngle atn \<lparr>m_x = 0, m_y = y\<rparr> = 2 * pi"
    using atan2_axis_y [OF assms, of y] by (simp add: rotationAngle_def)
  note flat = atan2_axis_x [OF assms, of x]
  note origin = atan2_origin [OF assms]
  show ?thesis
    by (intro conjI sites [THEN conjunct1] sites [THEN conjunct2, THEN conjunct1]
        sites [THEN conjunct2, THEN conjunct2] up down flat [THEN conjunct1]
        flat [THEN conjunct2] origin atan2ex_values)
qed

theorem angle_computations_raw_witness:
  "libm_atan2 atan2_pz \<and>
   atan2_pz 1 0 = pi / 2 \<and> rotationAngle atan2_pz \<lparr>m_x = 0, m_y = 1\<rparr> = pi \<and>
   atan2_pz (- 1) 0 = - (pi / 2) \<and> rotationAngle atan2_pz \<lparr>m_x = 0, m_y = - 1\<rparr> = 2 * pi \<and>
   atan2_pz 0 1 = 0 \<and>
   (atan2_pz 0 (- 1) = pi \<or> atan2_pz 0 (- 1) = - pi) \<and>
   atan2ex atan2_pz (- 1) 0 = 1.5 * pi \<and> atan2ex atan2_pz 0 (- 1) = pi"
  using angle_computations_raw [OF libm_atan2_pz, of _ _ _ _ _ _ _ 1 1]
    angle_computations_raw [OF libm_atan2_pz, of _ _ _ _ _ _ _ "- 1" "- 1"]
    angle_computations_raw [OF libm_atan2_pz, of _ _ _ _ _ _ _ "- 1" 0]
    angle_computations_raw [OF libm_atan2_pz, of _ _ _ _ _ _ _ 0 "- 1"]
    libm_atan2_pz
  by simp

text \<open>
  Claim C2 as stated does not hold: for the vector (0, -1), with zero x and negative y,
  the only value of \<open>atan2\<close> is \<open>- pi / 2\<close> and not \<open>3 * pi / 2\<close>, so the rotation
  angle of a component with this normal is \<open>2 * pi\<close>, where the special-cased angle
  would give 0.
\<close>

theorem angle_not_special_cased:
  "rotationAngle atan2_pz \<lparr>m_x = 0, m_y = - 1\<rparr> = 2 * pi \<and>
   - atan2ex atan2_pz (- 1) 0 + 1.5 * pi = 0 \<and>
   atan2_results (- 1) 0 = [- (pi / 2)] \<and>
   atan2_pz (- 1) 0 = - (pi / 2) \<and>
   atan2ex atan2_pz (- 1) 0 = 1.5 * pi"
  by (simp add: rotationAngle_def atan2ex_def atan2_pz_def atan2_results_def)



text \<open>
  Claim C5, as the program has it. After the orientation step the width is at least
  the height: when the winning width is smaller than the winning height, a quarter turn
  is added to the angle and width and height are exchanged. The box is built from them
  by conversions to \<open>int\<close> and additions of the border that are not checked; every
  recorded box is at least as wide as it is high provided that, for every component, the
  truncated winning width and height and their sums with the border are 32-bit ints.
\<close>

theorem box_width_ge_height:
  assumes "measureComponents atn CH border ccs GA = Inr (GA', box, oldOffset, rotation)"
    and "\<forall>h\<in>set (componentHulls CH ccs GA).
           boxInRange border (best_width (degenerate h (calipers CH h)))
             (best_height (degenerate h (calipers CH h)))"
  shows "(\<forall>bx\<in>set box. m_y bx \<le> m_x bx) \<and>
         (\<forall>b angle w h. orient atn b = (angle, w, h) \<longrightarrow> h \<le> w) \<and>
         (\<forall>b. best_width b < best_height b \<longrightarrow>
            orient atn b = (rotationAngle atn (best_normal b) + 0.5 * pi, best_height b, best_width b))"
proof -
  have "\<forall>bx\<in>set box. m_y bx \<le> m_x bx"
  proof (rule measureComponents_boxes [OF assms(1) [unfolded measureComponents_def] assms(2)])
    show "\<forall>bx\<in>set []. m_y bx \<le> m_x (bx :: IPoint)" by simp
  next
    fix hullP angle off bx
    assume "measureHull atn CH border hullP = Inr (angle, off, bx)"
      and "boxInRange border (best_width (degenerate hullP (calipers CH hullP)))
             (best_height (degenerate hullP (calipers CH hullP)))"
    then show "m_y bx \<le> m_x bx" by (rule measureHull_box_order)
  qed
  moreover have "\<forall>b angle w h. orient atn b = (angle, w, h) \<longrightarrow> h \<le> w"
    using orient_width_ge_height by blast
  ultimately show ?thesis by (simp add: orient_swap)
qed

theorem box_width_ge_height_witness:
  "(\<exists>GA' oldOffset rotation. measureComponents atan2_pz exCH 30 exCCs exGA =
      Inr (GA', [\<lparr>m_x = 32, m_y = 31\<rparr>, \<lparr>m_x = 31, m_y = 31\<rparr>], oldOffset, rotation)) \<and>
   boxInRange 30 (best_width (calipers exCH exCentered)) (best_height (calipers exCH exCentered)) \<and>
   orient atan2_pz (calipers exCH exCentered) = (rotationAngle atan2_pz \<lparr>m_x = 1, m_y = 0\<rparr> + 0.5 * pi, 2, 1)"
proof -
  from exGA_measure obtain GA' oldOffset rotation where
    m: "measureComponents atan2_pz exCH 30 exCCs exGA =
      Inr (GA', [\<lparr>m_x = 32, m_y = 31\<rparr>, \<lparr>m_x = 31, m_y = 31\<rparr>], oldOffset, rotation)"
    by blast
  from box_width_ge_height [OF m exGA_in_range] have
    "best_width (calipers exCH exCentered) < best_height (calipers exCH exCentered) \<longrightarrow>
       orient atan2_pz (calipers exCH exCentered) =
         (rotationAngle atan2_pz (best_normal (calipers exCH exCentered)) + 0.5 * pi,
          best_height (calipers exCH exCentered), best_width (calipers exCH exCentered))"
    by blast
  then have o: "orient atan2_pz (calipers exCH exCentered) =
      (rotationAngle atan2_pz \<lparr>m_x = 1, m_y = 0\<rparr> + 0.5 * pi, 2, 1)"
    by (simp add: exCentered_calipers)
  have r: "boxInRange 30 (best_width (calipers exCH exCentered))
      (best_height (calipers exCH exCentered))"
    by (simp add: exCentered_calipers boxInRange_def truncate_toward_zero_def in_int_range_small)
  from m o r show ?thesis by blast
qed

text \<open>
  Claim C5 as stated does not hold: for a component of two nodes \<open>10 ^ 10\<close> apart the
  winning width is beyond the range of an \<open>int\<close>, its conversion gives \<open>INT_MIN\<close>, and
  with the border 30 the recorded box is (-2147483618, 31), less wide than high. For
  the width \<open>INT_MAX\<close> and the height 1 the addition of the border wraps around, and
  the box is (-2147483619, 31).
\<close>

theorem box_narrower_than_high:
  "recordedBoxes atan2_pz exCH 30 [exWideCC] exWideGA = Some [\<lparr>m_x = - 2147483618, m_y = 31\<rparr>] \<and>
   best_width (calipers exCH exWide) = 100000000000000000000 \<and>
   best_height (calipers exCH exWide) = 1 \<and>
   static_cast_int 100000000000000000000 = INT_MIN \<and>
   add_int INT_MIN 30 = - 2147483618 \<and>
   makeBox 30 2147483647 1 = \<lparr>m_x = - 2147483619, m_y = 31\<rparr>"
  by (simp add: exWide_boxes exWide_calipers makeBox_def static_cast_int_def add_int_def
      truncate_toward_zero_def in_int_range_def INT_MIN_def INT_MAX_def)

text \<open>
  Claim C6. When the first loop has succeeded and the packer has returned one offset
  per box, \<open>reassembleDrawings\<close> succeeds, and in its result the position of every
  node and every bend point of every component \<open>j\<close> is the value of the one function
  \<open>rotatePoint\<close> at its centered position and at index \<open>j\<close>. That function rotates
  by \<open>rotation[j]\<close>, adds \<open>offset[j]\<close> and subtracts \<open>oldOffset[j]\<close>; nodes and bends
  are treated alike. The components are disjoint, as those of a graph are.
\<close>

theorem final_transform_uniform:
  assumes lib: "libm_atan2 atn"
    and m: "measureComponents atn CH (m_border L) ccs GA = Inr (GA1, box, oldOffset, rotation)"
    and off: "offset = m_packer L box (replicate (length box) \<lparr>m_x = 0, m_y = 0\<rparr>) (m_targetRatio L)"
    and len: "length offset = length box"
    and dn: "distinct (concat (map fst ccs))"
    and de: "distinct (concat (map snd ccs))"
  shows "\<exists>GA'. reassembleDrawings atn L CH GA ccs = Inr (GA', [PackerCalled]) \<and>
     (\<forall>j<length ccs.
        (\<forall>p. rotatePoint atn rotation offset oldOffset p j =
              Inr (placed (rotation ! j) (offset ! j) (oldOffset ! j) p)) \<and>
        (\<forall>v\<in>set (fst (ccs ! j)).
           \<lparr>m_x = GA_x GA' v, m_y = GA_y GA' v\<rparr> =
             placed (rotation ! j) (offset ! j) (oldOffset ! j)
               \<lparr>m_x = GA_x GA1 v, m_y = GA_y GA1 v\<rparr>) \<and>
        (has GA1 edgeGraphics \<longrightarrow>
           (\<forall>e\<in>set (snd (ccs ! j)).
              GA_bends GA' e =
                map (placed (rotation ! j) (offset ! j) (oldOffset ! j)) (GA_bends GA1 e))))"
proof -
  let ?rp = "rotatePoint atn rotation offset oldOffset"
  from measureComponents_lengths [OF m] len
  have l: "length rotation = length ccs" "length offset = length ccs"
    "length oldOffset = length ccs"
    by simp_all
  have rp: "\<And>p j. j < length ccs \<Longrightarrow>
      ?rp p j = Inr (placed (rotation ! j) (offset ! j) (oldOffset ! j) p)"
    using l by (simp add: rotatePoint_placed [OF lib])
  have "\<And>p j. j < length ccs \<Longrightarrow> \<exists>q. ?rp p (0 + j) = Inr q"
    using rp by simp
  from transformComponents_defined [of ccs ?rp 0 GA1, OF this] obtain GA' where
    f: "foldE (transformComponent ?rp) ccs (GA1, 0) = Inr (GA', 0 + length ccs)"
    by blast
  then have a: "applyTransform ?rp ccs GA1 = Inr GA'"
    unfolding applyTransform_Inr by blast
  have r: "reassembleDrawings atn L CH GA ccs = Inr (GA', [PackerCalled])"
    using m a off by (simp add: reassembleDrawings_def Let_def)
  have "\<forall>j<length ccs.
        (\<forall>p. ?rp p j = Inr (placed (rotation ! j) (offset ! j) (oldOffset ! j) p)) \<and>
        (\<forall>v\<in>set (fst (ccs ! j)).
           \<lparr>m_x = GA_x GA' v, m_y = GA_y GA' v\<rparr> =
             placed (rotation ! j) (offset ! j) (oldOffset ! j)
               \<lparr>m_x = GA_x GA1 v, m_y = GA_y GA1 v\<rparr>) \<and>
        (has GA1 edgeGraphics \<longrightarrow>
           (\<forall>e\<in>set (snd (ccs ! j)).
              GA_bends GA' e =
                map (placed (rotation ! j) (offset ! j) (oldOffset ! j)) (GA_bends GA1 e)))"
  proof (intro allI impI)
    fix j assume j: "j < length ccs"
    note pts = transformComponents_points [OF f dn de j]
    have 1: "\<forall>p. ?rp p j = Inr (placed (rotation ! j) (offset ! j) (oldOffset ! j) p)"
      using rp [OF j] by simp
    have 2: "\<forall>v\<in>set (fst (ccs ! j)).
           \<lparr>m_x = GA_x GA' v, m_y = GA_y GA' v\<rparr> =
             placed (rotation ! j) (offset ! j) (oldOffset ! j)
               \<lparr>m_x = GA_x GA1 v, m_y = GA_y GA1 v\<rparr>"
    proof
      fix v assume "v \<in> set (fst (ccs ! j))"
      with pts have "?rp (point_of GA1 v) (0 + j) = Inr (point_of GA' v)" by blast
      with 1 show "\<lparr>m_x = GA_x GA' v, m_y = GA_y GA' v\<rparr> =
             placed (rotation ! j) (offset ! j) (oldOffset ! j)
               \<lparr>m_x = GA_x GA1 v, m_y = GA_y GA1 v\<rparr>"
        by (simp add: point_of_def)
    qed
    have 3: "has GA1 edgeGraphics \<longrightarrow>
           (\<forall>e\<in>set (snd (ccs ! j)).
              GA_bends GA' e =
                map (placed (rotation ! j) (offset ! j) (oldOffset ! j)) (GA_bends GA1 e))"
    proof (intro impI ballI)
      fix e assume "has GA1 edgeGraphics" "e \<in> set (snd (ccs ! j))"
      with pts have "mapE (\<lambda>bend. ?rp bend (0 + j)) (GA_bends GA1 e) = Inr (GA_bends GA' e)"
        by blast
      moreover have "mapE (\<lambda>bend. ?rp bend j) (GA_bends GA1 e) =
          Inr (map (placed (rotation ! j) (offset ! j) (oldOffset ! j)) (GA_bends GA1 e))"
        by (rule mapE_total) (simp add: rp [OF j])
      ultimately show "GA_bends GA' e =
          map (placed (rotation ! j) (offset ! j) (oldOffset ! j)) (GA_bends GA1 e)"
        by simp
    qed
    from 1 2 3 show "(\<forall>p. ?rp p j = Inr (placed (rotation ! j) (offset ! j) (oldOffset ! j) p)) \<and>
        (\<forall>v\<in>set (fst (ccs ! j)).
           \<lparr>m_x = GA_x GA' v, m_y = GA_y GA' v\<rparr> =
             placed (rotation ! j) (offset ! j) (oldOffset ! j)
               \<lparr>m_x = GA_x GA1 v, m_y = GA_y GA1 v\<rparr>) \<and>
        (has GA1 edgeGraphics \<longrightarrow>
           (\<forall>e\<in>set (snd (ccs ! j)).
              GA_bends GA' e =
                map (placed (rotation ! j) (offset ! j) (oldOffset ! j)) (GA_bends GA1 e)))"
      by blast
  qed
  with r show ?thesis by blast
qed

theorem final_transform_uniform_witness:
  "\<exists>GA1 oldOffset rotation GA'.
     measureComponents atan2_pz exCH 30 exCCs exGA =
       Inr (GA1, [\<lparr>m_x = 32, m_y = 31\<rparr>, \<lparr>m_x = 31, m_y = 31\<rparr>], oldOffset, rotation) \<and>
     reassembleDrawings atan2_pz (ComponentSplitterLayout_new exPacker) exCH exGA exCCs =
       Inr (GA', [PackerCalled]) \<and>
     \<lparr>m_x = GA_x GA' 3, m_y = GA_y GA' 3\<rparr> =
       placed (rotation ! 1) \<lparr>m_x = 32, m_y = 0\<rparr> (oldOffset ! 1)
         \<lparr>m_x = GA_x GA1 3, m_y = GA_y GA1 3\<rparr> \<and>
     GA_bends GA' 0 =
       map (placed (rotation ! 0) \<lparr>m_x = 0, m_y = 0\<rparr> (oldOffset ! 0)) (GA_bends GA1 0)"
proof -
  let ?L = "ComponentSplitterLayout_new exPacker"
  let ?box = "[\<lparr>m_x = 32, m_y = 31\<rparr>, \<lparr>m_x = 31, m_y = 31\<rparr>] :: IPoint list"
  have L: "m_border ?L = 30" "m_packer ?L = exPacker" "m_targetRatio ?L = 1"
    by (simp_all add: ComponentSplitterLayout_new_def)
  from exGA_measure obtain GA1 oldOffset rotation where
    m: "measureComponents atan2_pz exCH (m_border ?L) exCCs exGA = Inr (GA1, ?box, oldOffset, rotation)"
    unfolding L by blast
  define offset where
    "offset = m_packer ?L ?box (replicate (length ?box) \<lparr>m_x = 0, m_y = 0\<rparr>) (m_targetRatio ?L)"
  have offset: "offset = [\<lparr>m_x = 0, m_y = 0\<rparr>, \<lparr>m_x = 32, m_y = 0\<rparr>]"
    by (simp add: offset_def L exPacker_def)
  have len: "length offset = length ?box"
    by (simp add: offset)
  have dn: "distinct (concat (map fst exCCs))" and de: "distinct (concat (map snd exCCs))"
    by (simp_all add: exCCs_def exCC1_def exCC2_def)
  have h: "has GA1 edgeGraphics"
    using measureComponents_has [OF m, of edgeGraphics] by (simp add: has_def exGA_def)
  from final_transform_uniform [OF libm_atan2_pz m offset_def len dn de] obtain GA' where
    r: "reassembleDrawings atan2_pz ?L exCH exGA exCCs = Inr (GA', [PackerCalled])"
    and t: "\<forall>j<length exCCs.
        (\<forall>v\<in>set (fst (exCCs ! j)).
           \<lparr>m_x = GA_x GA' v, m_y = GA_y GA' v\<rparr> =
             placed (rotation ! j) (offset ! j) (oldOffset ! j)
               \<lparr>m_x = GA_x GA1 v, m_y = GA_y GA1 v\<rparr>) \<and>
        (has GA1 edgeGraphics \<longrightarrow>
           (\<forall>e\<in>set (snd (exCCs ! j)).
              GA_bends GA' e =
                map (placed (rotation ! j) (offset ! j) (oldOffset ! j)) (GA_bends GA1 e)))"
    by blast
  have j: "(0::nat) < length exCCs" "(1::nat) < length exCCs"
    and v: "(3::nat) \<in> set (fst (exCCs ! 1))" and e: "(0::nat) \<in> set (snd (exCCs ! 0))"
    by (simp_all add: exCCs_def exCC1_def exCC2_def)
  from t j(2) v have n3: "\<lparr>m_x = GA_x GA' 3, m_y = GA_y GA' 3\<rparr> =
       placed (rotation ! 1) (offset ! 1) (oldOffset ! 1) \<lparr>m_x = GA_x GA1 3, m_y = GA_y GA1 3\<rparr>"
    by blast
  from t j(1) e h have b0: "GA_bends GA' 0 =
       map (placed (rotation ! 0) (offset ! 0) (oldOffset ! 0)) (GA_bends GA1 0)"
    by blast
  have o: "offset ! 1 = \<lparr>m_x = 32, m_y = 0\<rparr>" "offset ! 0 = \<lparr>m_x = 0, m_y = 0\<rparr>"
    by (simp_all add: offset)
  from m r n3 b0 show ?thesis
    unfolding o L by blast
qed

text \<open>
  Claim C7. For a component with distinct nodes and edges and at least one node, the
  centering step succeeds; the average is the sum of all collected points (node
  positions and bend points alike) divided by their number; it is subtracted from the
  position of every node, from every bend point of every edge (when the graph has
  \<open>edgeGraphics\<close>, and so has bends) and from every entry of the local point list; the
  local list then is the point list of the centered graph, and its mean is (0, 0).
\<close>

theorem centering:
  assumes "distinct (fst cc)" and "distinct (snd cc)" and "fst cc \<noteq> []"
  shows "\<exists>GA' points'.
     centerComponent GA cc = Inr (GA', points') \<and>
     average GA cc =
       (sum_list (map m_x (collectPoints GA cc)) / real (length (collectPoints GA cc)),
        sum_list (map m_y (collectPoints GA cc)) / real (length (collectPoints GA cc))) \<and>
     (\<forall>v\<in>set (fst cc).
        GA_x GA' v = GA_x GA v - fst (average GA cc) \<and>
        GA_y GA' v = GA_y GA v - snd (average GA cc)) \<and>
     (has GA edgeGraphics \<longrightarrow>
        (\<forall>e\<in>set (snd cc).
           GA_bends GA' e =
             map (shiftPoint (fst (average GA cc)) (snd (average GA cc))) (GA_bends GA e))) \<and>
     points' = map (shiftPoint (fst (average GA cc)) (snd (average GA cc))) (collectPoints GA cc) \<and>
     points' = collectPoints GA' cc \<and>
     sum_list (map m_x points') / real (length points') = 0 \<and>
     sum_list (map m_y points') / real (length points') = 0"
proof -
  let ?ax = "fst (average GA cc)" and ?ay = "snd (average GA cc)"
  let ?GA' = "centered ?ax ?ay cc GA"
  let ?ps = "collectPoints GA cc"
  let ?points' = "map (shiftPoint ?ax ?ay) ?ps"
  have ne: "?ps \<noteq> []" using assms(3) by (simp add: collectPoints_def)
  have avg: "?ax = sum_list (map m_x ?ps) / real (length ?ps)"
      "?ay = sum_list (map m_y ?ps) / real (length ?ps)"
    by (simp_all add: average_eq)
  have mx: "sum_list (map m_x ?points') = 0"
    unfolding avg by (rule mean_centered(1) [OF ne])
  have my: "sum_list (map m_y ?points') = 0"
    unfolding avg by (rule mean_centered(2) [OF ne])
  have "centerComponent GA cc = Inr (?GA', ?points')" by (rule centerComponent_Inr)
  moreover have "\<forall>v\<in>set (fst cc).
        GA_x ?GA' v = GA_x GA v - ?ax \<and> GA_y ?GA' v = GA_y GA v - ?ay"
    using centered_nodes [OF assms(1)] by blast
  moreover have "has GA edgeGraphics \<longrightarrow>
        (\<forall>e\<in>set (snd cc). GA_bends ?GA' e = map (shiftPoint ?ax ?ay) (GA_bends GA e))"
    using centered_bends [OF assms(2)] by blast
  moreover have "?points' = collectPoints ?GA' cc"
    by (rule collectPoints_centered [OF assms(1,2), symmetric])
  moreover have "sum_list (map m_x ?points') / real (length ?points') = 0"
    by (simp only: mx div_0)
  moreover have "sum_list (map m_y ?points') / real (length ?points') = 0"
    by (simp only: my div_0)
  ultimately show ?thesis
    using average_eq [of GA cc] by blast
qed

theorem centering_witness:
  "average exGA exCC1 = (1, 1 / 2) \<and>
   (\<exists>GA'. centerComponent exGA exCC1 = Inr (GA', exCentered) \<and>
      GA_x GA' 0 = - 1 \<and> GA_y GA' 0 = - (1 / 2) \<and> GA_x GA' 2 = 1 \<and> GA_y GA' 2 = 1 / 2 \<and>
      GA_bends GA' 0 = [\<lparr>m_x = - 1, m_y = 1 / 2\<rparr>] \<and>
      collectPoints GA' exCC1 = exCentered) \<and>
   sum_list (map m_x exCentered) / real (length exCentered) = 0 \<and>
   sum_list (map m_y exCentered) / real (length exCentered) = 0"
proof -
  have d: "distinct (fst exCC1)" "distinct (snd exCC1)" "fst exCC1 \<noteq> []"
    by (simp_all add: exCC1_def)
  have h: "has exGA edgeGraphics" by (simp add: has_def exGA_def)
  have m: "(0::nat) \<in> set (fst exCC1)" "(2::nat) \<in> set (fst exCC1)" "(0::nat) \<in> set (snd exCC1)"
    by (simp_all add: exCC1_def)
  from centering [OF d, of exGA] obtain GA' points' where
    c: "centerComponent exGA exCC1 = Inr (GA', points')"
    and n: "\<forall>v\<in>set (fst exCC1).
        GA_x GA' v = GA_x exGA v - fst (average exGA exCC1) \<and>
        GA_y GA' v = GA_y exGA v - snd (average exGA exCC1)"
    and b: "has exGA edgeGraphics \<longrightarrow>
        (\<forall>e\<in>set (snd exCC1).
           GA_bends GA' e =
             map (shiftPoint (fst (average exGA exCC1)) (snd (average exGA exCC1))) (GA_bends exGA e))"
    and p: "points' = map (shiftPoint (fst (average exGA exCC1)) (snd (average exGA exCC1)))
        (collectPoints exGA exCC1)"
    and q: "points' = collectPoints GA' exCC1"
    and s: "sum_list (map m_x points') / real (length points') = 0"
      "sum_list (map m_y points') / real (length points') = 0"
    by blast
  from p have p': "points' = exCentered" by (simp only: exGA_centered_points)
  have vals: "GA_x exGA 0 = 0" "GA_y exGA 0 = 0" "GA_x exGA 2 = 2" "GA_y exGA 2 = 1"
      "GA_bends exGA 0 = [\<lparr>m_x = 0, m_y = 1\<rparr>]"
    by (simp_all add: exGA_def)
  from n m have
    "GA_x GA' 0 = GA_x exGA 0 - fst (average exGA exCC1) \<and>
     GA_y GA' 0 = GA_y exGA 0 - snd (average exGA exCC1) \<and>
     GA_x GA' 2 = GA_x exGA 2 - fst (average exGA exCC1) \<and>
     GA_y GA' 2 = GA_y exGA 2 - snd (average exGA exCC1)"
    by blast
  then have xy: "GA_x GA' 0 = - 1 \<and> GA_y GA' 0 = - (1 / 2) \<and> GA_x GA' 2 = 1 \<and> GA_y GA' 2 = 1 / 2"
    by (simp add: exGA_average vals)
  from b h m have
    "GA_bends GA' 0 =
       map (shiftPoint (fst (average exGA exCC1)) (snd (average exGA exCC1))) (GA_bends exGA 0)"
    by blast
  then have bd: "GA_bends GA' 0 = [\<lparr>m_x = - 1, m_y = 1 / 2\<rparr>]"
    by (simp add: exGA_average vals shiftPoint_def)
  from c q s xy bd exGA_average show ?thesis
    unfolding p' by simp
qed

text \<open>
  Claim C8. A hull of at most one point gives width 1, height 1 and the normal (1, 1),
  whatever the search over the hull edges has stored. With the border 30 that the
  constructor sets, the box of such a component is (31, 31); this holds in particular
  for a component of a single node, whose centered point set is the origin alone.
\<close>

theorem degenerate_hull_unit_box:
  assumes "length hullP \<le> 1"
  shows "best_width (degenerate hullP b) = 1 \<and> best_height (degenerate hullP b) = 1 \<and>
         best_normal (degenerate hullP b) = \<lparr>m_x = 1, m_y = 1\<rparr> \<and>
         (hullP \<noteq> [] \<longrightarrow>
            (\<exists>off. measureHull atn CH (m_border (ComponentSplitterLayout_new tileToRows)) hullP =
               Inr (rotationAngle atn \<lparr>m_x = 1, m_y = 1\<rparr>, off, \<lparr>m_x = 31, m_y = 31\<rparr>))) \<and>
         (length (CH_call CH [\<lparr>m_x = 0, m_y = 0\<rparr>]) = 1 \<longrightarrow>
            (\<exists>GA' off. processComponent atn CH (m_border (ComponentSplitterLayout_new tileToRows))
                 ([v], []) (GA, box, oldOffset, rotation) =
               Inr (GA', box @ [\<lparr>m_x = 31, m_y = 31\<rparr>], oldOffset @ [off],
                    rotation @ [rotationAngle atn \<lparr>m_x = 1, m_y = 1\<rparr>])))"
proof -
  have r: "in_int_range (1 + 30)"
    by (simp add: in_int_range_def INT_MIN_def INT_MAX_def)
  have border: "m_border (ComponentSplitterLayout_new tileToRows) = 30"
    by (simp add: ComponentSplitterLayout_new_def)
  have "hullP \<noteq> [] \<Longrightarrow>
      \<exists>off. measureHull atn CH 30 hullP =
        Inr (rotationAngle atn \<lparr>m_x = 1, m_y = 1\<rparr>, off, \<lparr>m_x = 31, m_y = 31\<rparr>)"
    using measureHull_degenerate [OF assms _ r, of atn CH] by simp
  moreover have "length (CH_call CH [\<lparr>m_x = 0, m_y = 0\<rparr>]) = 1 \<Longrightarrow>
      \<exists>GA' off. processComponent atn CH 30 ([v], []) (GA, box, oldOffset, rotation) =
        Inr (GA', box @ [\<lparr>m_x = 31, m_y = 31\<rparr>], oldOffset @ [off],
             rotation @ [rotationAngle atn \<lparr>m_x = 1, m_y = 1\<rparr>])"
    using processComponent_single [OF _ r, of CH atn v GA box oldOffset rotation] by simp
  ultimately show ?thesis
    using assms by (simp add: degenerate_small border)
qed

theorem degenerate_hull_unit_box_witness:
  "best_width (degenerate [\<lparr>m_x = 0, m_y = 0\<rparr>] (calipers exCH [\<lparr>m_x = 0, m_y = 0\<rparr>])) = 1 \<and>
   best_height (degenerate [\<lparr>m_x = 0, m_y = 0\<rparr>] (calipers exCH [\<lparr>m_x = 0, m_y = 0\<rparr>])) = 1 \<and>
   (\<exists>off. measureHull atan2_pz exCH 30 [\<lparr>m_x = 0, m_y = 0\<rparr>] =
      Inr (rotationAngle atan2_pz \<lparr>m_x = 1, m_y = 1\<rparr>, off, \<lparr>m_x = 31, m_y = 31\<rparr>)) \<and>
   (\<exists>GA' off. processComponent atan2_pz exCH 30 ([3], []) (exGA, [], [], []) =
      Inr (GA', [\<lparr>m_x = 31, m_y = 31\<rparr>], [off], [rotationAngle atan2_pz \<lparr>m_x = 1, m_y = 1\<rparr>]))"
proof -
  have l: "length [\<lparr>m_x = 0, m_y = 0 :: real\<rparr>] \<le> 1" by simp
  have h: "length (CH_call exCH [\<lparr>m_x = 0, m_y = 0\<rparr>]) = 1" by (simp add: exCH_def)
  show ?thesis
    using degenerate_hull_unit_box [OF l,
        of "calipers exCH [\<lparr>m_x = 0, m_y = 0\<rparr>]" atan2_pz exCH exPacker 3 exGA "[]" "[]" "[]"] h
    by (simp add: ComponentSplitterLayout_new_def)
qed

text \<open>
  Claim C9. Without a secondary layout, or on a graph with no connected component,
  \<open>call\<close> returns the graph attributes as they are, and calls neither the secondary
  layout nor \<open>reassembleDrawings\<close> nor the packer: the list of calls is empty.
\<close>

theorem call_noop:
  "m_secondaryLayout L = None \<or> numberOfCCs (CCsInfo_of S (constGraph GA)) = 0 \<Longrightarrow>
   call atn L CH S GA = Inr (GA, [])"
  by (auto simp: call_def split: option.splits)

theorem call_noop_witness:
  "call atan2_pz (ComponentSplitterLayout_new exPacker) exCH exS exGA = Inr (exGA, []) \<and>
   call atan2_pz ((ComponentSplitterLayout_new exPacker)\<lparr>m_secondaryLayout := Some (\<lambda>GA. GA)\<rparr>) exCH exS
     (exGA\<lparr>constGraph := \<lparr>Graph_nodes = [], Graph_edges = []\<rparr>\<rparr>)
     = Inr (exGA\<lparr>constGraph := \<lparr>Graph_nodes = [], Graph_edges = []\<rparr>\<rparr>, []) \<and>
   (\<exists>GA'. call atan2_pz ((ComponentSplitterLayout_new exPacker)\<lparr>m_secondaryLayout := Some (\<lambda>GA. GA)\<rparr>)
      exCH exS exGA =
     Inr (GA', [SecondaryLayoutCalled 0, SecondaryLayoutCalled 1, ReassembleDrawingsCalled,
                PackerCalled]))"
proof -
  have a: "m_secondaryLayout (ComponentSplitterLayout_new exPacker) = None"
    by (simp add: ComponentSplitterLayout_new_def)
  have b: "numberOfCCs (CCsInfo_of exS
      (constGraph (exGA\<lparr>constGraph := \<lparr>Graph_nodes = [], Graph_edges = []\<rparr>\<rparr>))) = 0"
    by (simp add: exS_def numberOfCCs_def)
  show ?thesis
    using call_noop [OF disjI1 [OF a], of atan2_pz exCH exS exGA]
      call_noop [OF disjI2 [OF b],
        of atan2_pz "(ComponentSplitterLayout_new exPacker)\<lparr>m_secondaryLayout := Some (\<lambda>GA. GA)\<rparr>"
          exCH]
      call_example
    by simp
qed

text \<open>
  Claim C10, as the program has it. Height and width of every candidate are raised to
  at least 1 before the area is taken and compared. Every box that the first loop of
  \<open>reassembleDrawings\<close> records, and so every box handed to the packer, has both
  dimensions at least 1 + border provided that, for every component, the hull has at
  most one point (it gets the unit box) or some candidate of the hull has an area that
  is a finite double (at most \<open>DBL_MAX\<close>, the initial best area: otherwise no
  candidate replaces the initial width and height 0), and the truncated winning width
  and height and their sums with the border are 32-bit ints (the conversions and the
  additions are not checked).
\<close>

theorem box_at_least_one_plus_border:
  assumes "measureComponents atn CH border ccs GA = Inr (GA', box, oldOffset, rotation)"
    and "\<forall>h\<in>set (componentHulls CH ccs GA).
           length h \<le> 1 \<or> (\<exists>c\<in>set (candidates CH h). best_area c \<le> DBL_MAX)"
    and "\<forall>h\<in>set (componentHulls CH ccs GA).
           boxInRange border (best_width (degenerate h (calipers CH h)))
             (best_height (degenerate h (calipers CH h)))"
  shows "length box = length ccs \<and>
         (\<forall>bx\<in>set box. 1 + border \<le> m_x bx \<and> 1 + border \<le> m_y bx) \<and>
         (\<forall>h\<in>set (componentHulls CH ccs GA). \<forall>c\<in>set (candidates CH h).
            1 \<le> best_height c \<and> 1 \<le> best_width c \<and>
            best_area c = best_height c * best_width c)"
proof -
  let ?Q = "\<lambda>h. (length h \<le> 1 \<or> (\<exists>c\<in>set (candidates CH h). best_area c \<le> DBL_MAX)) \<and>
      boxInRange border (best_width (degenerate h (calipers CH h)))
        (best_height (degenerate h (calipers CH h)))"
  from assms(2,3) have q: "\<forall>h\<in>set (componentHulls CH ccs GA). ?Q h" by blast
  have "\<forall>bx\<in>set box. 1 + border \<le> m_x bx \<and> 1 + border \<le> m_y bx"
  proof (rule measureComponents_boxes [where Q = ?Q,
        OF assms(1) [unfolded measureComponents_def] q])
    show "\<forall>bx\<in>set []. 1 + border \<le> m_x bx \<and> 1 + border \<le> m_y (bx :: IPoint)" by simp
  next
    fix hullP angle off bx
    assume "measureHull atn CH border hullP = Inr (angle, off, bx)" and "?Q hullP"
    then show "1 + border \<le> m_x bx \<and> 1 + border \<le> m_y bx"
      using measureHull_box_lower by blast
  qed
  moreover have "\<forall>h\<in>set (componentHulls CH ccs GA). \<forall>c\<in>set (candidates CH h).
      1 \<le> best_height c \<and> 1 \<le> best_width c \<and> best_area c = best_height c * best_width c"
    by (auto simp: candidates_def candidate_dims candidate_area)
  ultimately show ?thesis
    using measureComponents_lengths [OF assms(1)] by blast
qed

theorem box_at_least_one_plus_border_witness:
  "\<exists>GA' oldOffset rotation. measureComponents atan2_pz exCH 30 exCCs exGA =
      Inr (GA', [\<lparr>m_x = 32, m_y = 31\<rparr>, \<lparr>m_x = 31, m_y = 31\<rparr>], oldOffset, rotation) \<and>
      componentHulls exCH exCCs exGA = [exCentered, [\<lparr>m_x = 0, m_y = 0\<rparr>]] \<and>
      map best_area (candidates exCH exCentered) = [8, 2, 8, 2] \<and>
      list_all (\<lambda>bx. 1 + 30 \<le> m_x bx \<and> 1 + 30 \<le> m_y bx)
        [\<lparr>m_x = 32, m_y = 31\<rparr>, \<lparr>m_x = 31, m_y = 31 :: int\<rparr>]"
proof -
  from exGA_measure obtain GA' oldOffset where
    m: "measureComponents atan2_pz exCH 30 exCCs exGA =
     Inr (GA', [\<lparr>m_x = 32, m_y = 31\<rparr>, \<lparr>m_x = 31, m_y = 31\<rparr>], oldOffset,
          [rotationAngle atan2_pz \<lparr>m_x = 1, m_y = 0\<rparr> + 0.5 * pi, rotationAngle atan2_pz \<lparr>m_x = 1, m_y = 1\<rparr>])"
    by blast
  have f: "\<forall>h\<in>set (componentHulls exCH exCCs exGA).
           length h \<le> 1 \<or> (\<exists>c\<in>set (candidates exCH h). best_area c \<le> DBL_MAX)"
    using DBL_MAX_big by (simp add: exGA_hulls exCentered_candidates)
  from box_at_least_one_plus_border [OF m f exGA_in_range]
  have a: "list_all (\<lambda>bx. 1 + 30 \<le> m_x bx \<and> 1 + 30 \<le> m_y bx)
      [\<lparr>m_x = 32, m_y = 31\<rparr>, \<lparr>m_x = 31, m_y = 31 :: int\<rparr>]"
    by (simp add: list_all_iff)
  have b: "map best_area (candidates exCH exCentered) = [8, 2, 8, 2]"
    by (simp add: exCentered_candidates)
  show ?thesis
    by (rule exI [of _ GA'], rule exI [of _ oldOffset], rule exI, rule conjI, rule m)
      (intro conjI exGA_hulls a b)
qed

text \<open>
  Claim C10 as stated does not hold. For the four corners of a square of side
  \<open>2 ^ 266\<close> every candidate area is \<open>2 ^ 1064\<close>, above \<open>DBL_MAX\<close>: no candidate
  replaces the initial width and height 0, and with the border 30 the recorded box is
  (30, 30). For two nodes \<open>10 ^ 10\<close> apart the conversion of the width gives \<open>INT_MIN\<close>
  and the recorded box is (-2147483618, 31); for the width and height \<open>INT_MAX\<close> the
  additions of the border wrap around.
\<close>

theorem box_below_one_plus_border:
  "recordedBoxes atan2_pz exCH 30 [exBigCC] exBigGA = Some [\<lparr>m_x = 30, m_y = 30\<rparr>] \<and>
   map best_area (candidates exCH exBig) = [2 ^ 1064, 2 ^ 1064, 2 ^ 1064, 2 ^ 1064] \<and>
   DBL_MAX < 2 ^ 1064 \<and>
   calipers exCH exBig = initialBest \<and>
   recordedBoxes atan2_pz exCH 30 [exWideCC] exWideGA = Some [\<lparr>m_x = - 2147483618, m_y = 31\<rparr>] \<and>
   makeBox 30 2147483647 2147483647 = \<lparr>m_x = - 2147483619, m_y = - 2147483619\<rparr>"
  by (simp add: exBig_boxes exBig_candidates exBig_calipers exWide_boxes DBL_MAX_def
      makeBox_def static_cast_int_def add_int_def truncate_toward_zero_def in_int_range_def
      INT_MIN_def INT_MAX_def)

end
